theory Spec2Isabelle
  imports Main "HOL-Library.AList" "HOL-Library.Monad_Syntax" "HOL-Library.Sublist"
begin

section \<open>JSON values as the Python code sees them\<close>

text \<open>
  Records and QA reports are the results of \<^verbatim>\<open>json.load\<close>: nested Python values.
  A dict is an association list in insertion order (\<^verbatim>\<open>map_of\<close> reads it,
  \<^verbatim>\<open>AList.update\<close> stores a key in place or appends it, as a Python dict does).
  Numbers are Python's unbounded ints: the type has no floating-point number, so a
  document holding one (a fraction, an exponent, \<^verbatim>\<open>NaN\<close>, \<^verbatim>\<open>Infinity\<close>) is not a
  value of the model. A string is the list of its code points, each below 256 (the
  Latin-1 range): a character is one of HOL's 256, read as the code point of its number.
  Text holding a code point from 256 on (and so a lone surrogate) is not a value of the
  model either.

  A Python exception (AttributeError on \<^verbatim>\<open>.get\<close> of a non-dict, TypeError on
  iterating an int, on hashing a list, ...) is the value \<open>None\<close>: every operation
  that can raise returns an option, and the appliers propagate it.
\<close>

datatype json =
    JNull
  | JBool bool
  | JInt int
  | JStr string
  | JList "json list"
  | JObj "(string \<times> json) list"

text \<open>Python truthiness (\<^verbatim>\<open>if x:\<close>, \<^verbatim>\<open>not x\<close>, \<^verbatim>\<open>x or y\<close>).\<close>

fun truthy :: "json \<Rightarrow> bool" where
  "truthy JNull = False"
| "truthy (JBool b) = b"
| "truthy (JInt i) = (i \<noteq> 0)"
| "truthy (JStr s) = (s \<noteq> [])"
| "truthy (JList xs) = (xs \<noteq> [])"
| "truthy (JObj kvs) = (kvs \<noteq> [])"

text \<open>
  Python \<^verbatim>\<open>==\<close> on JSON values: \<^verbatim>\<open>True == 1\<close>, lists compare elementwise,
  dicts compare by keys and values, whatever the order of insertion.
\<close>

fun py_eq :: "json \<Rightarrow> json \<Rightarrow> bool" where
  "py_eq JNull JNull = True"
| "py_eq (JBool a) (JBool b) = (a = b)"
| "py_eq (JBool a) (JInt j) = ((if a then 1 else 0) = j)"
| "py_eq (JInt i) (JBool b) = (i = (if b then 1 else 0))"
| "py_eq (JInt i) (JInt j) = (i = j)"
| "py_eq (JStr s) (JStr t) = (s = t)"
| "py_eq (JList xs) (JList ys) = list_all2 py_eq xs ys"
| "py_eq (JObj a) (JObj b) =
     (length a = length b \<and>
      list_all (\<lambda>(k, v). case map_of b k of None \<Rightarrow> False | Some w \<Rightarrow> py_eq v w) a)"
| "py_eq _ _ = False"

text \<open>\<^verbatim>\<open>d.get(k, default)\<close>: AttributeError unless \<open>d\<close> is a dict.\<close>

fun dict_get :: "json \<Rightarrow> string \<Rightarrow> json \<Rightarrow> json option" where
  "dict_get (JObj kvs) k d = Some (case map_of kvs k of None \<Rightarrow> d | Some v \<Rightarrow> v)"
| "dict_get _ k d = None"

text \<open>\<^verbatim>\<open>d[k] = v\<close> for a string key: TypeError unless \<open>d\<close> is a dict.\<close>

fun dict_set :: "json \<Rightarrow> string \<Rightarrow> json \<Rightarrow> json option" where
  "dict_set (JObj kvs) k v = Some (JObj (AList.update k v kvs))"
| "dict_set _ k v = None"

text \<open>
  \<^verbatim>\<open>d.setdefault(k, default)\<close>: the value now stored under \<open>k\<close>, and the dict
  after the call.
\<close>

fun setdefault :: "json \<Rightarrow> string \<Rightarrow> json \<Rightarrow> (json \<times> json) option" where
  "setdefault (JObj kvs) k d =
     (case map_of kvs k of
        None \<Rightarrow> Some (d, JObj (AList.update k d kvs))
      | Some v \<Rightarrow> Some (v, JObj kvs))"
| "setdefault _ k d = None"

text \<open>
  \<^verbatim>\<open>for x in v\<close>: a list yields its elements, a dict its keys, a string its
  characters; None, a bool and an int raise TypeError.
\<close>

fun py_iter :: "json \<Rightarrow> json list option" where
  "py_iter (JList xs) = Some xs"
| "py_iter (JObj kvs) = Some (map (\<lambda>kv. JStr (fst kv)) kvs)"
| "py_iter (JStr s) = Some (map (\<lambda>c. JStr [c]) s)"
| "py_iter _ = None"

text \<open>
  The code mutates nested objects in place (\<^verbatim>\<open>affiliation["name"] = new_aff\<close> changes
  the record). In the model the changed object is stored back into its parent:
  \<open>replace_items\<close> gives a list object its updated elements, \<open>dict_replace\<close> gives a
  key that is present its updated value. Neither adds a key or changes a length.
\<close>

fun replace_items :: "json \<Rightarrow> json list \<Rightarrow> json" where
  "replace_items (JList xs) ys = JList ys"
| "replace_items v ys = v"

fun dict_replace :: "json \<Rightarrow> string \<Rightarrow> json \<Rightarrow> json" where
  "dict_replace (JObj kvs) k v =
     (case map_of kvs k of None \<Rightarrow> JObj kvs | Some _ \<Rightarrow> JObj (AList.update k v kvs))"
| "dict_replace d k v = d"

section \<open>Title, abstract and publication date\<close>

definition apply_title :: "json \<Rightarrow> json \<Rightarrow> (json \<times> bool) option" where
  "apply_title record correction =
     (if \<not> truthy correction then Some (record, False)
      else do {
        (metadata, record1) \<leftarrow> setdefault record ''metadata'' (JObj []);
        old \<leftarrow> dict_get metadata ''title'' (JStr []);
        if py_eq old correction then Some (record1, False)
        else do {
          metadata' \<leftarrow> dict_set metadata ''title'' correction;
          record2 \<leftarrow> dict_set record1 ''metadata'' metadata';
          Some (record2, True)
        }
      })"

definition apply_abstract :: "json \<Rightarrow> json \<Rightarrow> (json \<times> bool) option" where
  "apply_abstract record correction =
     (if \<not> truthy correction then Some (record, False)
      else do {
        (metadata, record1) \<leftarrow> setdefault record ''metadata'' (JObj []);
        old \<leftarrow> dict_get metadata ''description'' (JStr []);
        if py_eq old correction then Some (record1, False)
        else do {
          metadata' \<leftarrow> dict_set metadata ''description'' correction;
          record2 \<leftarrow> dict_set record1 ''metadata'' metadata';
          Some (record2, True)
        }
      })"

definition apply_publication_date :: "json \<Rightarrow> json \<Rightarrow> (json \<times> bool) option" where
  "apply_publication_date record correction =
     (if \<not> truthy correction then Some (record, False)
      else do {
        (metadata, record1) \<leftarrow> setdefault record ''metadata'' (JObj []);
        old \<leftarrow> dict_get metadata ''publication_date'' (JStr []);
        if py_eq old correction then Some (record1, False)
        else do {
          metadata' \<leftarrow> dict_set metadata ''publication_date'' correction;
          record2 \<leftarrow> dict_set record1 ''metadata'' metadata';
          Some (record2, True)
        }
      })"

section \<open>Affiliations and organizational authors\<close>

text \<open>
  The three nested loops of \<^verbatim>\<open>apply_affiliations\<close>, innermost first. Each returns
  the updated objects and the number of rewrites. A later correction sees the names an
  earlier one wrote.
\<close>

fun affiliation_loop :: "json \<Rightarrow> json \<Rightarrow> json list \<Rightarrow> (json list \<times> nat) option" where
  "affiliation_loop old_aff new_aff [] = Some ([], 0)"
| "affiliation_loop old_aff new_aff (affiliation # rest) = do {
     name \<leftarrow> dict_get affiliation ''name'' (JStr []);
     affiliation' \<leftarrow> (if py_eq name old_aff then dict_set affiliation ''name'' new_aff
                      else Some affiliation);
     (rest', n) \<leftarrow> affiliation_loop old_aff new_aff rest;
     Some (affiliation' # rest', (if py_eq name old_aff then 1 else 0) + n)
   }"

fun aff_creator_loop :: "json \<Rightarrow> json \<Rightarrow> json list \<Rightarrow> (json list \<times> nat) option" where
  "aff_creator_loop old_aff new_aff [] = Some ([], 0)"
| "aff_creator_loop old_aff new_aff (creator # rest) = do {
     affiliations \<leftarrow> dict_get creator ''affiliations'' (JList []);
     items \<leftarrow> py_iter affiliations;
     (items', n) \<leftarrow> affiliation_loop old_aff new_aff items;
     (rest', m) \<leftarrow> aff_creator_loop old_aff new_aff rest;
     Some (dict_replace creator ''affiliations'' (replace_items affiliations items') # rest', n + m)
   }"

fun aff_correction_loop :: "json list \<Rightarrow> json \<Rightarrow> nat \<Rightarrow> (json \<times> nat) option" where
  "aff_correction_loop [] creators applied = Some (creators, applied)"
| "aff_correction_loop (correction # rest) creators applied = do {
     old_aff \<leftarrow> dict_get correction ''old_affiliation'' (JStr []);
     new_aff \<leftarrow> dict_get correction ''recommended_affiliation'' (JStr []);
     if \<not> truthy old_aff \<or> \<not> truthy new_aff then aff_correction_loop rest creators applied
     else do {
       items \<leftarrow> py_iter creators;
       (items', n) \<leftarrow> aff_creator_loop old_aff new_aff items;
       aff_correction_loop rest (replace_items creators items') (applied + n)
     }
   }"

definition apply_affiliations :: "json \<Rightarrow> json \<Rightarrow> (json \<times> nat) option" where
  "apply_affiliations record corrections =
     (if \<not> truthy corrections then Some (record, 0)
      else do {
        metadata \<leftarrow> dict_get record ''metadata'' (JObj []);
        creators \<leftarrow> dict_get metadata ''creators'' (JList []);
        cs \<leftarrow> py_iter corrections;
        (creators', applied) \<leftarrow> aff_correction_loop cs creators 0;
        Some (dict_replace record ''metadata'' (dict_replace metadata ''creators'' creators'),
              applied)
      })"

fun org_creator_loop :: "json \<Rightarrow> json \<Rightarrow> json list \<Rightarrow> (json list \<times> nat) option" where
  "org_creator_loop old_org new_org [] = Some ([], 0)"
| "org_creator_loop old_org new_org (creator # rest) = do {
     person_org \<leftarrow> dict_get creator ''person_or_org'' (JObj []);
     ty \<leftarrow> dict_get person_org ''type'' JNull;
     name \<leftarrow> dict_get person_org ''name'' JNull;
     person_org' \<leftarrow> (if py_eq ty (JStr ''organizational'') \<and> py_eq name old_org
                     then dict_set person_org ''name'' new_org else Some person_org);
     (rest', m) \<leftarrow> org_creator_loop old_org new_org rest;
     Some (dict_replace creator ''person_or_org'' person_org' # rest',
           (if py_eq ty (JStr ''organizational'') \<and> py_eq name old_org then 1 else 0) + m)
   }"

fun org_correction_loop :: "json list \<Rightarrow> json \<Rightarrow> nat \<Rightarrow> (json \<times> nat) option" where
  "org_correction_loop [] creators applied = Some (creators, applied)"
| "org_correction_loop (correction # rest) creators applied = do {
     old_org \<leftarrow> dict_get correction ''old_organizational_author'' (JStr []);
     new_org \<leftarrow> dict_get correction ''recommended_organizational_author'' (JStr []);
     if \<not> truthy old_org \<or> \<not> truthy new_org then org_correction_loop rest creators applied
     else do {
       items \<leftarrow> py_iter creators;
       (items', n) \<leftarrow> org_creator_loop old_org new_org items;
       org_correction_loop rest (replace_items creators items') (applied + n)
     }
   }"

definition apply_org_authors :: "json \<Rightarrow> json \<Rightarrow> (json \<times> nat) option" where
  "apply_org_authors record corrections =
     (if \<not> truthy corrections then Some (record, 0)
      else do {
        metadata \<leftarrow> dict_get record ''metadata'' (JObj []);
        creators \<leftarrow> dict_get metadata ''creators'' (JList []);
        cs \<leftarrow> py_iter corrections;
        (creators', applied) \<leftarrow> org_correction_loop cs creators 0;
        Some (dict_replace record ''metadata'' (dict_replace metadata ''creators'' creators'),
              applied)
      })"

section \<open>Descriptor deletion\<close>

text \<open>
  The string methods the applier uses: \<^verbatim>\<open>replace\<close> of one character,
  \<^verbatim>\<open>split\<close> at a one-character separator (n separators give n + 1 pieces),
  \<^verbatim>\<open>strip\<close> of the whitespace of \<^verbatim>\<open>str.isspace\<close>, \<^verbatim>\<open>lower\<close> and
  \<^verbatim>\<open>join\<close>. Below 256 the whitespace code points are 9 to 13, 28 to 32, 0x85 and
  0xA0, and \<^verbatim>\<open>lower\<close> changes the letters A to Z and the Latin-1 capitals 0xC0 to
  0xDE (0xD7, the multiplication sign, is not a letter), each to the code point 32
  above it.
\<close>

definition py_replace :: "char \<Rightarrow> char \<Rightarrow> string \<Rightarrow> string" where
  "py_replace a b s = map (\<lambda>c. if c = a then b else c) s"

fun py_split :: "char \<Rightarrow> string \<Rightarrow> string list" where
  "py_split sep [] = [[]]"
| "py_split sep (c # cs) =
     (if c = sep then [] # py_split sep cs
      else (case py_split sep cs of [] \<Rightarrow> [[c]] | p # ps \<Rightarrow> (c # p) # ps))"

definition is_space :: "char \<Rightarrow> bool" where
  "is_space c = (c \<in> set [CHR 0x09, CHR 0x0A, CHR 0x0B, CHR 0x0C, CHR 0x0D,
                           CHR 0x1C, CHR 0x1D, CHR 0x1E, CHR 0x1F, CHR 0x20,
                           CHR 0x85, CHR 0xA0])"

definition py_strip :: "string \<Rightarrow> string" where
  "py_strip s = rev (dropWhile is_space (rev (dropWhile is_space s)))"

definition capitals :: string where
  "capitals = ''ABCDEFGHIJKLMNOPQRSTUVWXYZ'' @
     [CHR 0xC0, CHR 0xC1, CHR 0xC2, CHR 0xC3, CHR 0xC4, CHR 0xC5, CHR 0xC6, CHR 0xC7,
      CHR 0xC8, CHR 0xC9, CHR 0xCA, CHR 0xCB, CHR 0xCC, CHR 0xCD, CHR 0xCE, CHR 0xCF,
      CHR 0xD0, CHR 0xD1, CHR 0xD2, CHR 0xD3, CHR 0xD4, CHR 0xD5, CHR 0xD6, CHR 0xD8,
      CHR 0xD9, CHR 0xDA, CHR 0xDB, CHR 0xDC, CHR 0xDD, CHR 0xDE]"

definition smalls :: string where
  "smalls = ''abcdefghijklmnopqrstuvwxyz'' @
     [CHR 0xE0, CHR 0xE1, CHR 0xE2, CHR 0xE3, CHR 0xE4, CHR 0xE5, CHR 0xE6, CHR 0xE7,
      CHR 0xE8, CHR 0xE9, CHR 0xEA, CHR 0xEB, CHR 0xEC, CHR 0xED, CHR 0xEE, CHR 0xEF,
      CHR 0xF0, CHR 0xF1, CHR 0xF2, CHR 0xF3, CHR 0xF4, CHR 0xF5, CHR 0xF6, CHR 0xF8,
      CHR 0xF9, CHR 0xFA, CHR 0xFB, CHR 0xFC, CHR 0xFD, CHR 0xFE]"

definition lower_char :: "char \<Rightarrow> char" where
  "lower_char c = (case map_of (zip capitals smalls) c of None \<Rightarrow> c | Some d \<Rightarrow> d)"

definition py_lower :: "string \<Rightarrow> string" where
  "py_lower s = map lower_char s"

fun py_join :: "string \<Rightarrow> string list \<Rightarrow> string" where
  "py_join sep [] = []"
| "py_join sep [x] = x"
| "py_join sep (x # y # ys) = x @ sep @ py_join sep (y # ys)"

text \<open>\<^verbatim>\<open>d.lower()\<close>: AttributeError unless \<open>d\<close> is a string.\<close>

fun str_lower :: "json \<Rightarrow> string option" where
  "str_lower (JStr s) = Some (py_lower s)"
| "str_lower _ = None"

text \<open>A comprehension whose element expression can raise: the first failure aborts it.\<close>

fun map_option_list :: "('a \<Rightarrow> 'b option) \<Rightarrow> 'a list \<Rightarrow> 'b list option" where
  "map_option_list f [] = Some []"
| "map_option_list f (x # xs) = do { y \<leftarrow> f x; ys \<leftarrow> map_option_list f xs; Some (y # ys) }"

definition descriptors_key :: string where
  "descriptors_key = ''iaea:descriptors_cai_text''"

definition parse_descriptors :: "string \<Rightarrow> string list" where
  "parse_descriptors descriptors =
     filter (\<lambda>d. d \<noteq> []) (map py_strip (py_split CHR '','' (py_replace CHR '';'' CHR '','' descriptors)))"

text \<open>
  Lines 141 to 154 of the applier, once \<open>descriptor_list\<close> is built: the entries
  are paired with their lower-case forms, since \<^verbatim>\<open>d.lower()\<close> is evaluated for each.
\<close>

definition delete_descriptors ::
  "json \<Rightarrow> json \<Rightarrow> bool \<Rightarrow> json list \<Rightarrow> json \<Rightarrow> (json \<times> bool) option" where
  "delete_descriptors record custom_fields original_is_str descriptor_list deletions = do {
     ds \<leftarrow> py_iter deletions;
     deletions_lower \<leftarrow> map_option_list str_lower (filter truthy ds);
     lowered \<leftarrow> map_option_list str_lower descriptor_list;
     let filtered = map fst (filter (\<lambda>(d, l). l \<notin> set deletions_lower) (zip descriptor_list lowered));
     if length filtered = length descriptor_list then Some (record, False)
     else do {
       custom_fields' \<leftarrow> dict_set custom_fields descriptors_key
         (if original_is_str
          then JStr (py_join ''; '' (map (\<lambda>d. case d of JStr s \<Rightarrow> s | _ \<Rightarrow> []) filtered))
          else JList filtered);
       record' \<leftarrow> dict_set record ''custom_fields'' custom_fields';
       Some (record', True)
     }
   }"

definition apply_descriptor_deletions :: "json \<Rightarrow> json \<Rightarrow> (json \<times> bool) option" where
  "apply_descriptor_deletions record deletions =
     (if \<not> truthy deletions then Some (record, False)
      else do {
        custom_fields \<leftarrow> dict_get record ''custom_fields'' (JObj []);
        descriptors \<leftarrow> dict_get custom_fields descriptors_key JNull;
        if \<not> truthy descriptors then Some (record, False)
        else (case descriptors of
                JStr s \<Rightarrow>
                  delete_descriptors record custom_fields True
                    (map JStr (parse_descriptors s)) deletions
              | JList xs \<Rightarrow> delete_descriptors record custom_fields False xs deletions
              | _ \<Rightarrow> Some (record, False))
      })"

section \<open>Related identifiers\<close>

text \<open>
  \<open>existing_ids\<close> is a Python set: its members are hashable (a list or a dict raises
  TypeError), and membership is by \<^verbatim>\<open>==\<close>. The model keeps the members in a list.
\<close>

fun hashable :: "json \<Rightarrow> bool" where
  "hashable (JList xs) = False"
| "hashable (JObj kvs) = False"
| "hashable v = True"

definition set_member :: "json \<Rightarrow> json list \<Rightarrow> bool option" where
  "set_member v ids = (if hashable v then Some (list_ex (py_eq v) ids) else None)"

text \<open>\<^verbatim>\<open>existing.append(x)\<close>: AttributeError unless \<open>existing\<close> is a list.\<close>

fun list_append :: "json \<Rightarrow> json \<Rightarrow> json option" where
  "list_append (JList xs) x = Some (JList (xs @ [x]))"
| "list_append _ x = None"

definition identifier_of :: "json \<Rightarrow> json option" where
  "identifier_of ri = dict_get ri ''identifier'' (JStr [])"

definition existing_id :: "json \<Rightarrow> json option" where
  "existing_id ri = do { i \<leftarrow> identifier_of ri; if hashable i then Some i else None }"

fun add_loop :: "json list \<Rightarrow> json \<Rightarrow> json list \<Rightarrow> nat \<Rightarrow> (json \<times> nat) option" where
  "add_loop [] existing existing_ids added = Some (existing, added)"
| "add_loop (identifier # rest) existing existing_ids added = do {
     ident \<leftarrow> identifier_of identifier;
     if truthy ident then do {
       present \<leftarrow> set_member ident existing_ids;
       if \<not> present then do {
         existing' \<leftarrow> list_append existing identifier;
         add_loop rest existing' (existing_ids @ [ident]) (added + 1)
       }
       else add_loop rest existing existing_ids added
     }
     else add_loop rest existing existing_ids added
   }"

definition add_related_identifiers :: "json \<Rightarrow> json \<Rightarrow> (json \<times> nat) option" where
  "add_related_identifiers record identifiers =
     (if \<not> truthy identifiers then Some (record, 0)
      else do {
        (metadata, record1) \<leftarrow> setdefault record ''metadata'' (JObj []);
        (existing, metadata1) \<leftarrow> setdefault metadata ''related_identifiers'' (JList []);
        items \<leftarrow> py_iter existing;
        existing_ids \<leftarrow> map_option_list existing_id items;
        idents \<leftarrow> py_iter identifiers;
        (existing', added) \<leftarrow> add_loop idents existing existing_ids 0;
        metadata2 \<leftarrow> dict_set metadata1 ''related_identifiers'' existing';
        record2 \<leftarrow> dict_set record1 ''metadata'' metadata2;
        Some (record2, added)
      })"

section \<open>The orchestrator\<close>

text \<open>\<^verbatim>\<open>str(n)\<close> for a count, and for any int.\<close>

definition digit_char :: "nat \<Rightarrow> char" where
  "digit_char d = ''0123456789'' ! d"

fun str_of_nat :: "nat \<Rightarrow> string" where
  "str_of_nat n = (if n < 10 then [digit_char n] else str_of_nat (n div 10) @ [digit_char (n mod 10)])"

declare str_of_nat.simps [simp del]

definition str_of_int :: "int \<Rightarrow> string" where
  "str_of_int i = (if i < 0 then CHR ''-'' # str_of_nat (nat (- i)) else str_of_nat (nat i))"

text \<open>
  \<^verbatim>\<open>"key" in container\<close> for a string key: key membership in a dict, element
  equality in a list, substring in a string; TypeError on None, a bool or an int.
\<close>

fun py_contains :: "json \<Rightarrow> string \<Rightarrow> bool option" where
  "py_contains (JObj kvs) k = Some (map_of kvs k \<noteq> None)"
| "py_contains (JList xs) k = Some (list_ex (\<lambda>x. py_eq x (JStr k)) xs)"
| "py_contains (JStr s) k = Some (sublist k s)"
| "py_contains _ k = None"

text \<open>
  The locals of \<^verbatim>\<open>apply_corrections\<close>: the record being mutated, the \<open>changed\<close>
  flag and the two narratives. Each block of the function is one step on them.
\<close>

record state =
  doc :: json
  changed :: bool
  actions :: "string list"
  unapplied :: "string list"

definition title_step :: "json \<Rightarrow> json \<Rightarrow> state \<Rightarrow> state option" where
  "title_step report corrections st = do {
     present \<leftarrow> py_contains corrections ''title'';
     if present then do {
       gate \<leftarrow> dict_get report ''title_corrected'' (JBool True);
       if truthy gate then do {
         correction \<leftarrow> dict_get corrections ''title'' JNull;
         (record', ok) \<leftarrow> apply_title (doc st) correction;
         Some (if ok then st\<lparr>doc := record', actions := actions st @ [''Title corrected''],
                             changed := True\<rparr>
               else st\<lparr>doc := record'\<rparr>)
       }
       else Some (st\<lparr>unapplied := unapplied st @
                      [''Title correction present but title_corrected=false'']\<rparr>)
     }
     else Some st
   }"

definition abstract_step :: "json \<Rightarrow> json \<Rightarrow> state \<Rightarrow> state option" where
  "abstract_step report corrections st = do {
     present \<leftarrow> py_contains corrections ''abstract'';
     if present then do {
       gate \<leftarrow> dict_get report ''abstract_corrected'' (JBool True);
       if truthy gate then do {
         correction \<leftarrow> dict_get corrections ''abstract'' JNull;
         (record', ok) \<leftarrow> apply_abstract (doc st) correction;
         Some (if ok then st\<lparr>doc := record', actions := actions st @ [''Abstract corrected''],
                             changed := True\<rparr>
               else st\<lparr>doc := record'\<rparr>)
       }
       else Some (st\<lparr>unapplied := unapplied st @
                      [''Abstract correction present but abstract_corrected=false'']\<rparr>)
     }
     else Some st
   }"

definition date_step :: "json \<Rightarrow> json \<Rightarrow> state \<Rightarrow> state option" where
  "date_step report corrections st = do {
     present \<leftarrow> py_contains corrections ''publication_date'';
     if present then do {
       gate \<leftarrow> dict_get report ''date_corrected'' (JBool True);
       if truthy gate then do {
         correction \<leftarrow> dict_get corrections ''publication_date'' JNull;
         (record', ok) \<leftarrow> apply_publication_date (doc st) correction;
         Some (if ok then st\<lparr>doc := record',
                             actions := actions st @ [''Publication date corrected''],
                             changed := True\<rparr>
               else st\<lparr>doc := record'\<rparr>)
       }
       else Some (st\<lparr>unapplied := unapplied st @
                      [''Publication date correction present but date_corrected=false'']\<rparr>)
     }
     else Some st
   }"

definition descriptor_step :: "json \<Rightarrow> json \<Rightarrow> state \<Rightarrow> state option" where
  "descriptor_step report corrections st = do {
     present \<leftarrow> py_contains corrections ''delete_descriptor'';
     if present then do {
       gate \<leftarrow> dict_get report ''descriptor_corrected'' (JBool True);
       if truthy gate then do {
         d \<leftarrow> dict_get corrections ''delete_descriptor'' JNull;
         let deletions = (case d of JStr s \<Rightarrow> JList [JStr s] | _ \<Rightarrow> d);
         (record', ok) \<leftarrow> apply_descriptor_deletions (doc st)
                            (if truthy deletions then deletions else JList []);
         Some (if ok then st\<lparr>doc := record', actions := actions st @ [''Descriptors deleted''],
                             changed := True\<rparr>
               else st\<lparr>doc := record'\<rparr>)
       }
       else Some (st\<lparr>unapplied := unapplied st @
                      [''Descriptor deletions present but descriptor_corrected=false'']\<rparr>)
     }
     else Some st
   }"

definition affiliation_step :: "json \<Rightarrow> state \<Rightarrow> state option" where
  "affiliation_step report st = do {
     a \<leftarrow> dict_get report ''affiliation_corrections'' (JList []);
     let aff_corrections = (if truthy a then a else JList []);
     gate \<leftarrow> dict_get report ''affiliation_correction_recommended'' (JBool True);
     if truthy gate then do {
       (record', applied) \<leftarrow> apply_affiliations (doc st) aff_corrections;
       Some (if applied > 0
             then st\<lparr>doc := record',
                     actions := actions st @
                       [''Affiliations corrected ('' @ str_of_nat applied @ '')''],
                     changed := True\<rparr>
             else if truthy aff_corrections
             then st\<lparr>doc := record',
                     unapplied := unapplied st @
                       [''Affiliation corrections present but no matches found'']\<rparr>
             else st\<lparr>doc := record'\<rparr>)
     }
     else if truthy aff_corrections
     then Some (st\<lparr>unapplied := unapplied st @
       [''Affiliation corrections present but affiliation_correction_recommended=false'']\<rparr>)
     else Some st
   }"

definition org_step :: "json \<Rightarrow> state \<Rightarrow> state option" where
  "org_step report st = do {
     a \<leftarrow> dict_get report ''organizational_author_corrections'' (JList []);
     let org_corrections = (if truthy a then a else JList []);
     if truthy org_corrections then do {
       (record', applied) \<leftarrow> apply_org_authors (doc st) org_corrections;
       Some (if applied > 0
             then st\<lparr>doc := record',
                     actions := actions st @
                       [''Organizational authors corrected ('' @ str_of_nat applied @ '')''],
                     changed := True\<rparr>
             else st\<lparr>doc := record',
                     unapplied := unapplied st @
                       [''Organizational author corrections present but no matches found'']\<rparr>)
     }
     else Some st
   }"

definition related_step :: "json \<Rightarrow> state \<Rightarrow> state option" where
  "related_step corrections st = do {
     related \<leftarrow> (case corrections of
                   JObj kvs \<Rightarrow> dict_get corrections ''related_identifiers'' JNull
                 | _ \<Rightarrow> Some JNull);
     if truthy related then do {
       (record', added) \<leftarrow> add_related_identifiers (doc st)
                             (case related of JList xs \<Rightarrow> related | _ \<Rightarrow> JList [related]);
       Some (if added > 0
             then st\<lparr>doc := record',
                     actions := actions st @
                       [''Related identifiers added ('' @ str_of_nat added @ '')''],
                     changed := True\<rparr>
             else st\<lparr>doc := record'\<rparr>)
     }
     else Some st
   }"

definition apply_corrections ::
  "json \<Rightarrow> json \<Rightarrow> (json \<times> bool \<times> string list \<times> string list) option" where
  "apply_corrections record report = do {
     c \<leftarrow> dict_get report ''corrections'' (JObj []);
     let corrections = (if truthy c then c else JObj []);
     st1 \<leftarrow> title_step report corrections
             \<lparr>doc = record, changed = False, actions = [], unapplied = []\<rparr>;
     st2 \<leftarrow> abstract_step report corrections st1;
     st3 \<leftarrow> date_step report corrections st2;
     st4 \<leftarrow> descriptor_step report corrections st3;
     st5 \<leftarrow> affiliation_step report st4;
     st6 \<leftarrow> org_step report st5;
     st7 \<leftarrow> related_step corrections st6;
     Some (doc st7, changed st7, actions st7, unapplied st7)
   }"

section \<open>Report keying\<close>

text \<open>
  \<^verbatim>\<open>str(x)\<close> on a JSON value: a string is itself, everything else prints as its
  \<^verbatim>\<open>repr\<close>. The \<^verbatim>\<open>repr\<close> of a string quotes it (with double quotes when it holds
  a single quote and no double quote) and escapes backslash, the quote and the code
  points that are not printable: below 256 these are 0 to 31, 127 to 160 and 173.
\<close>

definition hex_digit :: "nat \<Rightarrow> char" where
  "hex_digit d = ''0123456789abcdef'' ! d"

definition repr_char :: "char \<Rightarrow> char \<Rightarrow> string" where
  "repr_char quote c =
     (if c = quote \<or> c = CHR 0x5C then [CHR 0x5C, c]
      else if c = CHR 0x09 then [CHR 0x5C, CHR ''t'']
      else if c = CHR 0x0A then [CHR 0x5C, CHR ''n'']
      else if c = CHR 0x0D then [CHR 0x5C, CHR ''r'']
      else if (of_char c :: nat) < 32 \<or>
              (127 \<le> (of_char c :: nat) \<and> (of_char c :: nat) \<le> 160) \<or>
              (of_char c :: nat) = 173
      then [CHR 0x5C, CHR ''x'', hex_digit ((of_char c :: nat) div 16),
            hex_digit ((of_char c :: nat) mod 16)]
      else [c])"

definition repr_str :: "string \<Rightarrow> string" where
  "repr_str s =
     (let quote = (if CHR 0x27 \<in> set s \<and> CHR 0x22 \<notin> set s then CHR 0x22 else CHR 0x27)
      in quote # concat (map (repr_char quote) s) @ [quote])"

fun py_repr :: "json \<Rightarrow> string" where
  "py_repr JNull = ''None''"
| "py_repr (JBool b) = (if b then ''True'' else ''False'')"
| "py_repr (JInt i) = str_of_int i"
| "py_repr (JStr s) = repr_str s"
| "py_repr (JList xs) = ''['' @ py_join '', '' (map py_repr xs) @ '']''"
| "py_repr (JObj kvs) =
     ''{'' @ py_join '', '' (map (\<lambda>kv. repr_str (fst kv) @ '': '' @ py_repr (snd kv)) kvs) @ ''}''"

definition py_str :: "json \<Rightarrow> string" where
  "py_str v = (case v of JStr s \<Rightarrow> s | _ \<Rightarrow> py_repr v)"

text \<open>
  \<^verbatim>\<open>Path.stem\<close> and \<^verbatim>\<open>Path.suffix\<close> read the final component of the path only:
  the suffix starts at the last dot, unless that dot is the first or the last character
  of the name. The model passes the file name.
\<close>

definition rfind_dot :: "string \<Rightarrow> nat option" where
  "rfind_dot name =
     (if CHR ''.'' \<in> set name
      then Some (length name - 1 - length (takeWhile (\<lambda>c. c \<noteq> CHR ''.'') (rev name)))
      else None)"

definition path_stem :: "string \<Rightarrow> string" where
  "path_stem name =
     (case rfind_dot name of
        None \<Rightarrow> name
      | Some i \<Rightarrow> if 0 < i \<and> i < length name - 1 then take i name else name)"


definition py_endswith :: "string \<Rightarrow> string \<Rightarrow> bool" where
  "py_endswith s t = (length t \<le> length s \<and> drop (length s - length t) s = t)"

definition report_key :: "string \<Rightarrow> json \<Rightarrow> string option" where
  "report_key report_name report_data = do {
     record_id \<leftarrow> dict_get report_data ''record_id'' JNull;
     if truthy record_id then Some (py_str record_id)
     else let stem = path_stem report_name in
       if py_endswith stem ''-report'' then Some (take (length stem - 7) stem)
       else Some stem
   }"

section \<open>Disposition\<close>




section \<open>The batch driver over a snapshot of the directories\<close>

text \<open>
  The filesystem the driver touches: the entries of the records directory and of the QA
  directory (in the order \<^verbatim>\<open>glob\<close> lists them), the two quarantine directories
  (\<open>None\<close> while a directory does not exist) and the audit report (the lines written
  to \<^verbatim>\<open>report_path\<close>). The five locations are distinct, and keys are plain file-name
  stems: a key holding a path separator or a glob metacharacter is outside the model.
  A file holds a JSON document (\<open>File (Some v)\<close>) or text that does not parse as JSON.
\<close>

datatype node = File "json option" | Directory

record snapshot =
  records :: "(string \<times> node) list"
  qa :: "(string \<times> node) list"
  out_of_scope :: "(string \<times> node) list option"
  duplicates :: "(string \<times> node) list option"
  audit :: "string list option"

text \<open>
  \<^verbatim>\<open>load_json\<close>: the document, Python's None (\<open>JNull\<close>) when the text is not JSON;
  opening a directory raises.
\<close>

fun load_json :: "node \<Rightarrow> json option" where
  "load_json (File (Some v)) = Some v"
| "load_json (File None) = Some JNull"
| "load_json Directory = None"

definition save_json :: "snapshot \<Rightarrow> string \<Rightarrow> json \<Rightarrow> bool \<Rightarrow> snapshot" where
  "save_json fs name data dry_run =
     (if dry_run then fs
      else fs\<lparr>records := AList.update name (File (Some data)) (records fs)\<rparr>)"








record entry =
  key :: string
  record_path :: "string option"
  report_path :: string
  entry_actions :: "string list"
  recommendations :: json
  entry_unapplied :: "string list"

record tally =
  processed :: nat
  corrected :: nat
  moved_out :: nat
  moved_dup :: nat
  missing :: nat

fun report_map_loop ::
  "(string \<times> node) list \<Rightarrow> (string \<times> json \<times> string) list \<Rightarrow> (string \<times> json \<times> string) list option"
  where
  "report_map_loop [] report_map = Some report_map"
| "report_map_loop (report_file # rest) report_map = do {
     data \<leftarrow> load_json (snd report_file);
     if data = JNull then report_map_loop rest report_map
     else do {
       k \<leftarrow> report_key (fst report_file) data;
       if k = [] then report_map_loop rest report_map
       else report_map_loop rest (AList.update k (data, fst report_file) report_map)
     }
   }"










section \<open>Observations on records used in the statements\<close>

definition top_field :: "json \<Rightarrow> string \<Rightarrow> json option" where
  "top_field record k = (case record of JObj kvs \<Rightarrow> map_of kvs k | _ \<Rightarrow> None)"

definition metadata_field :: "json \<Rightarrow> string \<Rightarrow> json option" where
  "metadata_field record k =
     (case top_field record ''metadata'' of Some m \<Rightarrow> top_field m k | None \<Rightarrow> None)"

text \<open>The record is a dict and its metadata, when present, is a dict.\<close>

definition metadata_ok :: "json \<Rightarrow> bool" where
  "metadata_ok record =
     (case record of
        JObj kvs \<Rightarrow>
          (case map_of kvs ''metadata'' of None \<Rightarrow> True | Some (JObj m) \<Rightarrow> True | Some _ \<Rightarrow> False)
      | _ \<Rightarrow> False)"

text \<open>What \<^verbatim>\<open>metadata.get(k, "")\<close> reads.\<close>

definition current_value :: "json \<Rightarrow> string \<Rightarrow> json" where
  "current_value record k = (case metadata_field record k of None \<Rightarrow> JStr [] | Some v \<Rightarrow> v)"

text \<open>
  The contract of an applier \<open>f\<close> for the metadata field \<open>k\<close>: a falsy correction is
  a no-op on every record; on a record whose metadata is malformed the applier raises;
  otherwise a correction equal to the current value is a no-op, and any other correction
  is stored under \<open>k\<close>, with every other metadata field and every other top-level key
  as before. A field that was present is present afterwards.
\<close>

definition scalar_contract ::
  "(json \<Rightarrow> json \<Rightarrow> (json \<times> bool) option) \<Rightarrow> string \<Rightarrow> json \<Rightarrow> json \<Rightarrow> bool" where
  "scalar_contract f k record c =
     ((\<not> truthy c \<longrightarrow> f record c = Some (record, False)) \<and>
      (truthy c \<and> \<not> metadata_ok record \<longrightarrow> f record c = None) \<and>
      (truthy c \<and> metadata_ok record \<and> py_eq (current_value record k) c \<longrightarrow>
         f record c = Some (record, False)) \<and>
      (truthy c \<and> metadata_ok record \<and> \<not> py_eq (current_value record k) c \<longrightarrow>
         (\<exists>record'. f record c = Some (record', True) \<and>
            metadata_ok record' \<and>
            metadata_field record' k = Some c \<and>
            (\<forall>k'. k' \<noteq> k \<longrightarrow> metadata_field record' k' = metadata_field record k') \<and>
            (\<forall>k'. k' \<noteq> ''metadata'' \<longrightarrow> top_field record' k' = top_field record k'))) \<and>
      (\<forall>record' b. f record c = Some (record', b) \<and> metadata_field record k \<noteq> None \<longrightarrow>
         metadata_field record' k \<noteq> None))"

text \<open>The common shape of the three appliers, with the field as a parameter.\<close>

definition overwrite :: "string \<Rightarrow> json \<Rightarrow> json \<Rightarrow> (json \<times> bool) option" where
  "overwrite k record correction =
     (if \<not> truthy correction then Some (record, False)
      else do {
        (metadata, record1) \<leftarrow> setdefault record ''metadata'' (JObj []);
        old \<leftarrow> dict_get metadata k (JStr []);
        if py_eq old correction then Some (record1, False)
        else do {
          metadata' \<leftarrow> dict_set metadata k correction;
          record2 \<leftarrow> dict_set record1 ''metadata'' metadata';
          Some (record2, True)
        }
      })"

section \<open>Observations on related identifiers\<close>

definition related_of :: "json \<Rightarrow> json list" where
  "related_of record =
     (case metadata_field record ''related_identifiers'' of Some (JList xs) \<Rightarrow> xs | _ \<Rightarrow> [])"

text \<open>The identifier values of a sequence of related-identifier objects.\<close>

definition ids_of :: "json list \<Rightarrow> json list" where
  "ids_of xs = map (\<lambda>ri. case identifier_of ri of None \<Rightarrow> JNull | Some i \<Rightarrow> i) xs"

text \<open>No two members are equal in Python's sense.\<close>

fun distinct_ids :: "json list \<Rightarrow> bool" where
  "distinct_ids [] = True"
| "distinct_ids (x # xs) = (\<not> list_ex (py_eq x) xs \<and> distinct_ids xs)"

definition iter_items :: "json \<Rightarrow> json list" where
  "iter_items v = (case py_iter v of None \<Rightarrow> [] | Some xs \<Rightarrow> xs)"

section \<open>The stages of the orchestrator\<close>

text \<open>
  \<^verbatim>\<open>corrections = report.get("corrections", {}) or {}\<close>, and the state of
  \<open>apply_corrections\<close> after its first four blocks (title, abstract, publication
  date, descriptors) and after its first six (with affiliations and organizational
  authors).
\<close>

definition effective_corrections :: "json \<Rightarrow> json option" where
  "effective_corrections report = do {
     c \<leftarrow> dict_get report ''corrections'' (JObj []);
     Some (if truthy c then c else JObj [])
   }"

definition after_descriptors :: "json \<Rightarrow> json \<Rightarrow> state option" where
  "after_descriptors record report = do {
     corrections \<leftarrow> effective_corrections report;
     st1 \<leftarrow> title_step report corrections
             \<lparr>doc = record, changed = False, actions = [], unapplied = []\<rparr>;
     st2 \<leftarrow> abstract_step report corrections st1;
     st3 \<leftarrow> date_step report corrections st2;
     descriptor_step report corrections st3
   }"

definition after_org :: "json \<Rightarrow> json \<Rightarrow> state option" where
  "after_org record report = do {
     st4 \<leftarrow> after_descriptors record report;
     st5 \<leftarrow> affiliation_step report st4;
     org_step report st5
   }"

text \<open>
  \<^verbatim>\<open>corrections.get("related_identifiers") if isinstance(corrections, dict) else None\<close>,
  and the list the orchestrator passes on (a value that is not a list is wrapped).
\<close>

definition related_value :: "json \<Rightarrow> json" where
  "related_value corrections =
     (case corrections of
        JObj kvs \<Rightarrow> (case map_of kvs ''related_identifiers'' of None \<Rightarrow> JNull | Some v \<Rightarrow> v)
      | _ \<Rightarrow> JNull)"

definition as_list :: "json \<Rightarrow> json" where
  "as_list v = (case v of JList xs \<Rightarrow> v | _ \<Rightarrow> JList [v])"

section \<open>Observations on descriptors\<close>

text \<open>
  The stored descriptor field, when the record and its \<open>custom_fields\<close> are dicts;
  \<open>custom_fields_ok\<close> says that they are (an absent \<open>custom_fields\<close> counts).
\<close>

definition descriptor_field :: "json \<Rightarrow> json option" where
  "descriptor_field record =
     (case top_field record ''custom_fields'' of
        Some cf \<Rightarrow> top_field cf descriptors_key
      | None \<Rightarrow> None)"

definition custom_fields_ok :: "json \<Rightarrow> bool" where
  "custom_fields_ok record =
     (case record of
        JObj kvs \<Rightarrow>
          (case map_of kvs ''custom_fields'' of None \<Rightarrow> True | Some (JObj m) \<Rightarrow> True
           | Some _ \<Rightarrow> False)
      | _ \<Rightarrow> False)"

definition unrecognized :: "json \<Rightarrow> bool" where
  "unrecognized v = (case v of JStr s \<Rightarrow> False | JList xs \<Rightarrow> False | _ \<Rightarrow> True)"

definition text_of :: "json \<Rightarrow> string" where
  "text_of v = (case v of JStr s \<Rightarrow> s | _ \<Rightarrow> [])"

text \<open>
  The lower-case forms of the non-empty strings among the deletions, and the test that
  a descriptor is one of them: the case-insensitive match by exact value.
\<close>

definition lowered_deletions :: "json \<Rightarrow> string list" where
  "lowered_deletions deletions =
     map (\<lambda>d. py_lower (text_of d)) (filter truthy (iter_items deletions))"

definition deleted :: "json \<Rightarrow> string \<Rightarrow> bool" where
  "deleted deletions d = (py_lower d \<in> set (lowered_deletions deletions))"

section \<open>The frame of a record: what no applier writes\<close>

text \<open>
  The entries of the metadata dict (none when it is absent or not a dict), and the
  record with one metadata field, or the descriptor field, stored.
\<close>

definition meta_of :: "json \<Rightarrow> (string \<times> json) list" where
  "meta_of record = (case top_field record ''metadata'' of Some (JObj m) \<Rightarrow> m | _ \<Rightarrow> [])"

definition put_meta :: "json \<Rightarrow> string \<Rightarrow> json \<Rightarrow> json" where
  "put_meta record k v =
     (case record of
        JObj kvs \<Rightarrow> JObj (AList.update ''metadata'' (JObj (AList.update k v (meta_of record))) kvs)
      | _ \<Rightarrow> record)"

definition custom_of :: "json \<Rightarrow> (string \<times> json) list" where
  "custom_of record = (case top_field record ''custom_fields'' of Some (JObj m) \<Rightarrow> m | _ \<Rightarrow> [])"

definition put_descriptors :: "json \<Rightarrow> json \<Rightarrow> json" where
  "put_descriptors record v =
     (case record of
        JObj kvs \<Rightarrow>
          JObj (AList.update ''custom_fields''
                  (JObj (AList.update descriptors_key v (custom_of record))) kvs)
      | _ \<Rightarrow> record)"

text \<open>
  The skeleton of a record: the record without the slots the appliers write. The name
  of an affiliation and of a \<open>person_or_org\<close> object is dropped, as are the metadata
  fields \<open>title\<close>, \<open>description\<close>, \<open>publication_date\<close> and
  \<open>related_identifiers\<close> and the descriptor field; every list keeps its elements in
  place, so two records with one skeleton have the same creators, in the same order,
  each with the same number of affiliations in the same order, and agree on every other
  field.
\<close>

fun name_skel :: "json \<Rightarrow> json" where
  "name_skel (JObj a) = JObj (AList.delete ''name'' a)"
| "name_skel v = v"

fun affs_skel :: "json \<Rightarrow> json" where
  "affs_skel (JList xs) = JList (map name_skel xs)"
| "affs_skel v = v"

definition creator_entry_skel :: "string \<times> json \<Rightarrow> string \<times> json" where
  "creator_entry_skel kv =
     (if fst kv = ''affiliations'' then (fst kv, affs_skel (snd kv))
      else if fst kv = ''person_or_org'' then (fst kv, name_skel (snd kv))
      else kv)"

fun creator_skel :: "json \<Rightarrow> json" where
  "creator_skel (JObj c) = JObj (map creator_entry_skel c)"
| "creator_skel v = v"

fun creators_skel :: "json \<Rightarrow> json" where
  "creators_skel (JList cs) = JList (map creator_skel cs)"
| "creators_skel v = v"

definition written_fields :: "string list" where
  "written_fields = [''title'', ''description'', ''publication_date'', ''related_identifiers'']"

definition meta_entry_skel :: "string \<times> json \<Rightarrow> string \<times> json" where
  "meta_entry_skel kv = (if fst kv = ''creators'' then (fst kv, creators_skel (snd kv)) else kv)"

fun meta_skel :: "json \<Rightarrow> json" where
  "meta_skel (JObj m) =
     JObj (map meta_entry_skel (filter (\<lambda>kv. fst kv \<notin> set written_fields) m))"
| "meta_skel v = v"

fun custom_skel :: "json \<Rightarrow> json" where
  "custom_skel (JObj cf) = JObj (AList.delete descriptors_key cf)"
| "custom_skel v = v"

definition skeleton :: "json \<Rightarrow> json" where
  "skeleton record =
     (case record of
        JObj kvs \<Rightarrow>
          JObj (filter (\<lambda>kv. fst kv \<noteq> ''metadata'' \<and> fst kv \<noteq> ''custom_fields'') kvs @
                [(''metadata'',
                  case map_of kvs ''metadata'' of None \<Rightarrow> JObj [] | Some m \<Rightarrow> meta_skel m),
                 (''custom_fields'',
                  case map_of kvs ''custom_fields'' of None \<Rightarrow> JNull | Some cf \<Rightarrow> custom_skel cf)])
      | _ \<Rightarrow> record)"

definition creators_of :: "json \<Rightarrow> json list" where
  "creators_of record =
     (case metadata_field record ''creators'' of Some (JList cs) \<Rightarrow> cs | _ \<Rightarrow> [])"

definition affiliations_of :: "json \<Rightarrow> json list" where
  "affiliations_of creator =
     (case top_field creator ''affiliations'' of Some (JList xs) \<Rightarrow> xs | _ \<Rightarrow> [])"

text \<open>The descriptor collection, whichever way it is stored.\<close>

definition descriptor_entries :: "json \<Rightarrow> json list" where
  "descriptor_entries record =
     (case descriptor_field record of
        Some (JStr s) \<Rightarrow> map JStr (parse_descriptors s)
      | Some (JList xs) \<Rightarrow> xs
      | _ \<Rightarrow> [])"

text \<open>
  An entry as \<open>parse_descriptors\<close> yields it: not empty, free of both delimiters,
  with no whitespace at either end.
\<close>

definition entry_ok :: "string \<Rightarrow> bool" where
  "entry_ok e = (e \<noteq> [] \<and> CHR '','' \<notin> set e \<and> CHR '';'' \<notin> set e \<and> py_strip e = e)"

section \<open>The rewriting loops as pure functions\<close>

text \<open>
  The loop over the corrections of \<open>apply_affiliations\<close> and of
  \<open>apply_org_authors\<close>, with the key names and the loop over the creators as
  parameters.
\<close>

fun correction_loop ::
  "string \<Rightarrow> string \<Rightarrow> (json \<Rightarrow> json \<Rightarrow> json list \<Rightarrow> (json list \<times> nat) option) \<Rightarrow>
   json list \<Rightarrow> json \<Rightarrow> nat \<Rightarrow> (json \<times> nat) option" where
  "correction_loop ko kn inner [] creators applied = Some (creators, applied)"
| "correction_loop ko kn inner (correction # rest) creators applied = do {
     old \<leftarrow> dict_get correction ko (JStr []);
     new \<leftarrow> dict_get correction kn (JStr []);
     if \<not> truthy old \<or> \<not> truthy new then correction_loop ko kn inner rest creators applied
     else do {
       items \<leftarrow> py_iter creators;
       (items', n) \<leftarrow> inner old new items;
       correction_loop ko kn inner rest (replace_items creators items') (applied + n)
     }
   }"

fun is_obj :: "json \<Rightarrow> bool" where
  "is_obj (JObj kvs) = True"
| "is_obj v = False"

text \<open>What \<^verbatim>\<open>d.get(k, "")\<close> reads on a dict.\<close>

definition get_or_empty :: "json \<Rightarrow> string \<Rightarrow> json" where
  "get_or_empty d k = (case top_field d k of None \<Rightarrow> JStr [] | Some v \<Rightarrow> v)"

text \<open>
  The pairs (old, recommended) of the corrections that are applied: both sides truthy.
\<close>

definition valid_pairs :: "string \<Rightarrow> string \<Rightarrow> json list \<Rightarrow> (json \<times> json) list" where
  "valid_pairs ko kn cs =
     map (\<lambda>c. (get_or_empty c ko, get_or_empty c kn))
       (filter (\<lambda>c. truthy (get_or_empty c ko) \<and> truthy (get_or_empty c kn)) cs)"

text \<open>
  Rewriting the creators with each pair in turn, and the number of rewrites, for a
  rewriting \<open>rw\<close> of one creator that makes \<open>hits\<close> rewrites.
\<close>

fun rewrite_all :: "(json \<Rightarrow> json \<Rightarrow> json \<Rightarrow> json) \<Rightarrow> (json \<times> json) list \<Rightarrow> json \<Rightarrow> json" where
  "rewrite_all rw [] creators = creators"
| "rewrite_all rw (p # ps) creators =
     rewrite_all rw ps (replace_items creators (map (rw (fst p) (snd p)) (iter_items creators)))"

fun count_all ::
  "(json \<Rightarrow> json \<Rightarrow> nat) \<Rightarrow> (json \<Rightarrow> json \<Rightarrow> json \<Rightarrow> json) \<Rightarrow> (json \<times> json) list \<Rightarrow> json \<Rightarrow> nat"
  where
  "count_all hits rw [] creators = 0"
| "count_all hits rw (p # ps) creators =
     sum_list (map (hits (fst p)) (iter_items creators)) +
     count_all hits rw ps (replace_items creators (map (rw (fst p) (snd p)) (iter_items creators)))"

text \<open>One affiliation, and one creator's affiliations.\<close>

definition rw_affiliation :: "json \<Rightarrow> json \<Rightarrow> json \<Rightarrow> json" where
  "rw_affiliation old new a =
     (if py_eq (get_or_empty a ''name'') old
      then (case a of JObj kvs \<Rightarrow> JObj (AList.update ''name'' new kvs) | _ \<Rightarrow> a)
      else a)"

definition affiliations_value :: "json \<Rightarrow> json" where
  "affiliations_value c = (case top_field c ''affiliations'' of None \<Rightarrow> JList [] | Some v \<Rightarrow> v)"

definition aff_names :: "json \<Rightarrow> json list" where
  "aff_names c = map (\<lambda>a. get_or_empty a ''name'') (iter_items (affiliations_value c))"

definition aff_creator_ok :: "json \<Rightarrow> bool" where
  "aff_creator_ok c =
     (is_obj c \<and> py_iter (affiliations_value c) \<noteq> None \<and>
      list_all is_obj (iter_items (affiliations_value c)))"

definition rw_aff_creator :: "json \<Rightarrow> json \<Rightarrow> json \<Rightarrow> json" where
  "rw_aff_creator old new c =
     dict_replace c ''affiliations''
       (replace_items (affiliations_value c)
          (map (rw_affiliation old new) (iter_items (affiliations_value c))))"

definition aff_hits :: "json \<Rightarrow> json \<Rightarrow> nat" where
  "aff_hits old c = length (filter (\<lambda>x. py_eq x old) (aff_names c))"

text \<open>One creator's \<open>person_or_org\<close> object.\<close>

definition person_value :: "json \<Rightarrow> json" where
  "person_value c = (case top_field c ''person_or_org'' of None \<Rightarrow> JObj [] | Some v \<Rightarrow> v)"

definition org_names :: "json \<Rightarrow> json list" where
  "org_names c =
     (if py_eq (case top_field (person_value c) ''type'' of None \<Rightarrow> JNull | Some v \<Rightarrow> v)
           (JStr ''organizational'')
      then [case top_field (person_value c) ''name'' of None \<Rightarrow> JNull | Some v \<Rightarrow> v]
      else [])"

definition org_creator_ok :: "json \<Rightarrow> bool" where
  "org_creator_ok c = (is_obj c \<and> is_obj (person_value c))"

definition org_hits :: "json \<Rightarrow> json \<Rightarrow> nat" where
  "org_hits old c = length (filter (\<lambda>x. py_eq x old) (org_names c))"

definition rw_org_creator :: "json \<Rightarrow> json \<Rightarrow> json \<Rightarrow> json" where
  "rw_org_creator old new c =
     dict_replace c ''person_or_org''
       (if org_hits old c > 0
        then (case person_value c of JObj kvs \<Rightarrow> JObj (AList.update ''name'' new kvs) | v \<Rightarrow> v)
        else person_value c)"

text \<open>
  What \<^verbatim>\<open>record.get("metadata", {}).get("creators", [])\<close> reads, the record after
  the creators object was mutated in place, the pairs a corrections value yields, and
  the condition under which the loop over them does not raise.
\<close>

definition creators_value :: "json \<Rightarrow> json" where
  "creators_value record =
     (case metadata_field record ''creators'' of None \<Rightarrow> JList [] | Some v \<Rightarrow> v)"

definition store_creators :: "json \<Rightarrow> json \<Rightarrow> json" where
  "store_creators record v =
     dict_replace record ''metadata'' (dict_replace (JObj (meta_of record)) ''creators'' v)"

definition aff_pairs :: "json \<Rightarrow> (json \<times> json) list" where
  "aff_pairs cs = valid_pairs ''old_affiliation'' ''recommended_affiliation'' (iter_items cs)"

definition org_pairs :: "json \<Rightarrow> (json \<times> json) list" where
  "org_pairs cs =
     valid_pairs ''old_organizational_author'' ''recommended_organizational_author''
       (iter_items cs)"

definition loop_ok :: "(json \<Rightarrow> bool) \<Rightarrow> (json \<times> json) list \<Rightarrow> json \<Rightarrow> bool" where
  "loop_ok ok ps creators =
     (ps \<noteq> [] \<longrightarrow> py_iter creators \<noteq> None \<and> list_all ok (iter_items creators))"

text \<open>
  How a record may differ from the one it was corrected from: the skeleton is the same,
  the descriptor collection is a subsequence of the old one, and the related identifiers
  extend the old ones at the end.
\<close>

definition evolves :: "json \<Rightarrow> json \<Rightarrow> bool" where
  "evolves r r' =
     (skeleton r' = skeleton r \<and>
      subseq (descriptor_entries r') (descriptor_entries r) \<and>
      prefix (related_of r) (related_of r'))"

section \<open>Applying a report twice\<close>

text \<open>
  A JSON document as \<^verbatim>\<open>json.load\<close> builds it: the keys of every dict are distinct.
\<close>

fun wf_json :: "json \<Rightarrow> bool" where
  "wf_json (JList xs) = list_all wf_json xs"
| "wf_json (JObj kvs) = (distinct (map fst kvs) \<and> list_all (\<lambda>kv. wf_json (snd kv)) kvs)"
| "wf_json v = True"

text \<open>
  \<^verbatim>\<open>report.get(k, []) or []\<close>, and the condition under which rewriting is settled
  after one pass over the applied pairs, taken in order: no recommended value equals the
  old value of its own pair or of a pair before it (\<open>prev\<close> holds the old values met
  so far). A recommended value that is the old value of a later pair is rewritten in the
  same pass and does no harm. The affiliation pairs are applied only when
  \<open>affiliation_correction_recommended\<close> is absent or truthy.
\<close>

definition report_list :: "json \<Rightarrow> string \<Rightarrow> json" where
  "report_list report k =
     (case top_field report k of
        None \<Rightarrow> JList []
      | Some v \<Rightarrow> if truthy v then v else JList [])"

fun no_back_chain :: "json list \<Rightarrow> (json \<times> json) list \<Rightarrow> bool" where
  "no_back_chain prev [] = True"
| "no_back_chain prev (p # ps) =
     (list_all (\<lambda>old. \<not> py_eq (snd p) old) (fst p # prev) \<and> no_back_chain (fst p # prev) ps)"

definition applied_aff_pairs :: "json \<Rightarrow> (json \<times> json) list" where
  "applied_aff_pairs report =
     (if truthy (case top_field report ''affiliation_correction_recommended'' of
                   None \<Rightarrow> JBool True | Some gate \<Rightarrow> gate)
      then aff_pairs (report_list report ''affiliation_corrections'')
      else [])"

text \<open>
  The slots of a record an applier writes, and the relation between a record and the
  record after a write to one slot.
\<close>

datatype slot = Meta string | Descriptors

definition writes :: "slot \<Rightarrow> json \<Rightarrow> json \<Rightarrow> bool" where
  "writes s r r' =
     (r' = r \<or>
      (case s of
         Meta k \<Rightarrow> metadata_ok r \<and> (\<exists>v. r' = put_meta r k v)
       | Descriptors \<Rightarrow>
           custom_fields_ok r \<and> descriptor_field r \<noteq> None \<and> (\<exists>v. r' = put_descriptors r v)))"

text \<open>
  An applier call that changes nothing: a scalar applier on a falsy correction or on one
  equal to the current value, and the names of the creators once no old value of an
  applied pair occurs among them.
\<close>

definition noop_scalar :: "string \<Rightarrow> json \<Rightarrow> json \<Rightarrow> bool" where
  "noop_scalar k c r = (\<not> truthy c \<or> (metadata_ok r \<and> py_eq (current_value r k) c))"

definition settled :: "(json \<Rightarrow> json list) \<Rightarrow> (json \<times> json) list \<Rightarrow> json \<Rightarrow> bool" where
  "settled names ps creators =
     (\<forall>c\<in>set (iter_items creators). \<forall>x\<in>set (names c). \<forall>p\<in>set ps. \<not> py_eq x (fst p))"

text \<open>A step of the orchestrator that touches nothing but the unapplied notes.\<close>

definition quiet :: "state \<Rightarrow> state \<Rightarrow> bool" where
  "quiet st st' = (doc st' = doc st \<and> changed st' = changed st \<and> actions st' = actions st)"

text \<open>The values a \<^verbatim>\<open>for\<close> loop accepts.\<close>

fun iterable :: "json \<Rightarrow> bool" where
  "iterable (JList xs) = True"
| "iterable (JObj kvs) = True"
| "iterable (JStr s) = True"
| "iterable v = False"

text \<open>
  A record on which a corrections value for affiliations, or for organizational
  authors, finds nothing to rewrite and nothing to raise on.
\<close>

definition aff_quiet :: "json \<Rightarrow> json \<Rightarrow> bool" where
  "aff_quiet a r =
     (\<not> truthy a \<or>
      (metadata_ok r \<and> iterable a \<and> list_all is_obj (iter_items a) \<and>
       loop_ok aff_creator_ok (aff_pairs a) (creators_value r) \<and>
       settled aff_names (aff_pairs a) (creators_value r)))"

definition org_quiet :: "json \<Rightarrow> json \<Rightarrow> bool" where
  "org_quiet a r =
     (\<not> truthy a \<or>
      (metadata_ok r \<and> iterable a \<and> list_all is_obj (iter_items a) \<and>
       loop_ok org_creator_ok (org_pairs a) (creators_value r) \<and>
       settled org_names (org_pairs a) (creators_value r)))"

text \<open>What \<^verbatim>\<open>metadata.setdefault("related_identifiers", [])\<close> returns.\<close>

definition existing_value :: "json \<Rightarrow> json" where
  "existing_value record =
     (case metadata_field record ''related_identifiers'' of None \<Rightarrow> JList [] | Some v \<Rightarrow> v)"

text \<open>
  A step of the orchestrator seen from outside: either it never touches more than the
  unapplied notes, or it is one call of an applier on the record, whose result it stores
  and whose outcome decides whether the step counts as a change. A step is stable on a
  record when running it there touches nothing but the unapplied notes.
\<close>

definition silent :: "(state \<Rightarrow> state option) \<Rightarrow> bool" where
  "silent step = (\<forall>s. \<exists>s'. step s = Some s' \<and> quiet s s')"

definition performs ::
  "(state \<Rightarrow> state option) \<Rightarrow> (json \<Rightarrow> (json \<times> 'a) option) \<Rightarrow> ('a \<Rightarrow> bool) \<Rightarrow> bool" where
  "performs step call fired =
     (\<forall>s. case call (doc s) of
            None \<Rightarrow> step s = None
          | Some (r', x) \<Rightarrow>
              \<exists>s'. step s = Some s' \<and> doc s' = r' \<and>
                   (\<not> fired x \<longrightarrow> changed s' = changed s \<and> actions s' = actions s))"

definition stable :: "(state \<Rightarrow> state option) \<Rightarrow> json \<Rightarrow> bool" where
  "stable step r = (\<forall>s. doc s = r \<longrightarrow> (\<exists>s'. step s = Some s' \<and> quiet s s'))"

text \<open>A sequence of writes, one slot after the other.\<close>

fun writes_list :: "slot list \<Rightarrow> json \<Rightarrow> json \<Rightarrow> bool" where
  "writes_list [] r r' = (r' = r)"
| "writes_list (s # ss) r r' = (\<exists>m. writes s r m \<and> writes_list ss m r')"








text \<open>The blocks of \<^verbatim>\<open>apply_corrections\<close> that follow the affiliation block.\<close>

definition after_affiliations ::
  "json \<Rightarrow> json \<Rightarrow> state \<Rightarrow> (json \<times> bool \<times> string list \<times> string list) option" where
  "after_affiliations report corrections st5 = do {
     st6 \<leftarrow> org_step report st5;
     st7 \<leftarrow> related_step corrections st6;
     Some (doc st7, changed st7, actions st7, unapplied st7)
   }"

text \<open>
  Two records with the same \<open>custom_fields\<close> (and so the same descriptor collection),
  and two records with the same \<open>related_identifiers\<close>.
\<close>

definition same_descriptors :: "json \<Rightarrow> json \<Rightarrow> bool" where
  "same_descriptors r r' = (top_field r' ''custom_fields'' = top_field r ''custom_fields'')"

definition same_related :: "json \<Rightarrow> json \<Rightarrow> bool" where
  "same_related r r' =
     (metadata_field r' ''related_identifiers'' = metadata_field r ''related_identifiers'')"

section \<open>Title, abstract and publication date: the contract\<close>

lemma py_eq_empty_str: "py_eq (JStr []) c \<Longrightarrow> \<not> truthy c"
  by (cases c) auto

lemma appliers_overwrite:
  "apply_title = overwrite ''title''"
  "apply_abstract = overwrite ''description''"
  "apply_publication_date = overwrite ''publication_date''"
  by (auto simp: fun_eq_iff apply_title_def apply_abstract_def apply_publication_date_def
      overwrite_def)

lemma overwrite_contract: "scalar_contract (overwrite k) k r c"
proof (cases "truthy c")
  case False
  then show ?thesis by (simp add: scalar_contract_def overwrite_def)
next
  case True
  show ?thesis
  proof (cases r)
    case (JObj kvs)
    show ?thesis
    proof (cases "map_of kvs ''metadata''")
      case None
      with True JObj show ?thesis
        using py_eq_empty_str[of c]
        by (auto simp: scalar_contract_def overwrite_def metadata_ok_def current_value_def
            metadata_field_def top_field_def update_conv')
    next
      case (Some m)
      with True JObj show ?thesis
        by (cases m) (auto simp: scalar_contract_def overwrite_def metadata_ok_def
            current_value_def metadata_field_def top_field_def update_conv'
            split: option.splits)
    qed
  qed (use True in \<open>auto simp: scalar_contract_def overwrite_def metadata_ok_def\<close>)
qed

text \<open>
  C6. The title, abstract and publication-date appliers return false and leave the
  record unchanged when the correction is falsy or equal (Python \<^verbatim>\<open>==\<close>, on strings
  the exact, case-sensitive match) to the current metadata value; otherwise they store
  the correction in exactly that metadata field and return true; the field is never
  deleted. On a record whose metadata is not a dict a truthy correction raises.
\<close>

theorem scalar_appliers_contract:
  "scalar_contract apply_title ''title'' r c \<and>
   scalar_contract apply_abstract ''description'' r c \<and>
   scalar_contract apply_publication_date ''publication_date'' r c"
  unfolding appliers_overwrite by (simp add: overwrite_contract)

theorem scalar_appliers_contract_witness:
  "metadata_ok (JObj [(''metadata'', JObj [(''title'', JStr ''Old'')])]) \<and>
   truthy (JStr ''New'') \<and>
   \<not> py_eq (current_value (JObj [(''metadata'', JObj [(''title'', JStr ''Old'')])]) ''title'')
        (JStr ''New'') \<and>
   (\<exists>r'. apply_title (JObj [(''metadata'', JObj [(''title'', JStr ''Old'')])]) (JStr ''New'')
            = Some (r', True) \<and>
          metadata_field r' ''title'' = Some (JStr ''New'')) \<and>
   apply_title (JObj [(''metadata'', JObj [(''title'', JStr ''Old'')])]) (JStr ''Old'')
     = Some (JObj [(''metadata'', JObj [(''title'', JStr ''Old'')])], False)"
proof -
  let ?r = "JObj [(''metadata'', JObj [(''title'', JStr ''Old'')])]"
  have ok: "metadata_ok ?r" by (simp add: metadata_ok_def)
  have cur: "current_value ?r ''title'' = JStr ''Old''"
    by (simp add: current_value_def metadata_field_def top_field_def)
  have new: "scalar_contract apply_title ''title'' ?r (JStr ''New'')"
    and old: "scalar_contract apply_title ''title'' ?r (JStr ''Old'')"
    using scalar_appliers_contract by blast+
  from new ok cur have
    "\<exists>r'. apply_title ?r (JStr ''New'') = Some (r', True) \<and>
          metadata_field r' ''title'' = Some (JStr ''New'')"
    unfolding scalar_contract_def by auto
  moreover from old ok cur have "apply_title ?r (JStr ''Old'') = Some (?r, False)"
    unfolding scalar_contract_def by auto
  ultimately show ?thesis using ok cur by simp
qed

section \<open>Report keying: the priority and the empty key\<close>

lemma str_of_nat_nonempty: "str_of_nat n \<noteq> []"
  by (subst str_of_nat.simps) simp

lemma py_str_nonempty: "truthy v \<Longrightarrow> py_str v \<noteq> []"
  by (cases v) (auto simp: py_str_def str_of_int_def str_of_nat_nonempty repr_str_def Let_def)

lemma py_endswith_iff: "py_endswith s t \<longleftrightarrow> (\<exists>zs. s = zs @ t)"
proof
  assume "py_endswith s t"
  then have "s = take (length s - length t) s @ t"
    unfolding py_endswith_def by (metis append_take_drop_id)
  then show "\<exists>zs. s = zs @ t" ..
next
  assume "\<exists>zs. s = zs @ t"
  then show "py_endswith s t" by (auto simp: py_endswith_def)
qed

lemma path_stem_nonempty: "name \<noteq> [] \<Longrightarrow> path_stem name \<noteq> []"
  by (auto simp: path_stem_def split: option.splits)

text \<open>
  C9, as amended. On a report object, \<open>report_key\<close> returns the string of a present
  and truthy \<open>record_id\<close> (never empty); otherwise the stem of the file name with a
  trailing \<open>-report\<close> removed; otherwise the stem. The key is empty exactly when no
  truthy \<open>record_id\<close> is present and the stem is \<open>-report\<close> itself. The loop of
  \<open>process\<close> that builds the report map skips a report whose key is empty, and files
  every other report under its key.
\<close>

theorem report_key_priority:
  "(map_of kvs ''record_id'' = Some v \<and> truthy v \<longrightarrow>
      report_key name (JObj kvs) = Some (py_str v) \<and> py_str v \<noteq> []) \<and>
   (\<not> (\<exists>v. map_of kvs ''record_id'' = Some v \<and> truthy v) \<longrightarrow>
      (\<forall>zs. path_stem name = zs @ ''-report'' \<longrightarrow> report_key name (JObj kvs) = Some zs) \<and>
      ((\<forall>zs. path_stem name \<noteq> zs @ ''-report'') \<longrightarrow>
         report_key name (JObj kvs) = Some (path_stem name))) \<and>
   (name \<noteq> [] \<longrightarrow>
      (report_key name (JObj kvs) = Some [] \<longleftrightarrow>
         \<not> (\<exists>v. map_of kvs ''record_id'' = Some v \<and> truthy v) \<and> path_stem name = ''-report'')) \<and>
   (\<forall>rest report_map.
      report_map_loop ((name, File (Some (JObj kvs))) # rest) report_map =
        (case report_key name (JObj kvs) of
           None \<Rightarrow> None
         | Some k \<Rightarrow>
             if k = [] then report_map_loop rest report_map
             else report_map_loop rest (AList.update k (JObj kvs, name) report_map)))"
proof (cases "\<exists>v. map_of kvs ''record_id'' = Some v \<and> truthy v")
  case True
  then obtain w where w: "map_of kvs ''record_id'' = Some w" "truthy w" by blast
  then have "report_key name (JObj kvs) = Some (py_str w)"
    by (simp add: report_key_def)
  with w True show ?thesis using py_str_nonempty[of w] by (auto split: option.splits)
next
  case False
  then have rid: "\<not> truthy (case map_of kvs ''record_id'' of None \<Rightarrow> JNull | Some v \<Rightarrow> v)"
    by (auto split: option.splits)
  have key: "report_key name (JObj kvs) =
      Some (if py_endswith (path_stem name) ''-report''
            then take (length (path_stem name) - 7) (path_stem name) else path_stem name)"
    using rid by (simp add: report_key_def Let_def)
  have a: "\<forall>zs. path_stem name = zs @ ''-report'' \<longrightarrow> report_key name (JObj kvs) = Some zs"
    by (auto simp: key py_endswith_iff)
  have b: "(\<forall>zs. path_stem name \<noteq> zs @ ''-report'') \<longrightarrow>
         report_key name (JObj kvs) = Some (path_stem name)"
    by (auto simp: key py_endswith_iff)
  have c: "name \<noteq> [] \<longrightarrow> (report_key name (JObj kvs) = Some [] \<longleftrightarrow> path_stem name = ''-report'')"
  proof
    assume n: "name \<noteq> []"
    show "report_key name (JObj kvs) = Some [] \<longleftrightarrow> path_stem name = ''-report''"
    proof (cases "\<exists>zs. path_stem name = zs @ ''-report''")
      case True
      then obtain zs where "path_stem name = zs @ ''-report''" ..
      with a show ?thesis by auto
    next
      case False
      with b path_stem_nonempty[OF n] show ?thesis by auto
    qed
  qed
  have d: "\<forall>rest report_map.
      report_map_loop ((name, File (Some (JObj kvs))) # rest) report_map =
        (case report_key name (JObj kvs) of
           None \<Rightarrow> None
         | Some k \<Rightarrow>
             if k = [] then report_map_loop rest report_map
             else report_map_loop rest (AList.update k (JObj kvs, name) report_map))"
    by (simp add: key)
  from False a b c d show ?thesis by blast
qed

theorem report_key_priority_witness:
  "report_key ''12-report.json'' (JObj [(''record_id'', JInt 7)]) = Some ''7'' \<and>
   report_key ''12-report.json'' (JObj []) = Some ''12'' \<and>
   report_key ''12.json'' (JObj [(''record_id'', JStr [])]) = Some ''12'' \<and>
   report_map_loop [(''-report.json'', File (Some (JObj []))),
                    (''12.json'', File (Some (JObj [(''record_id'', JStr [])])))] []
     = Some [(''12'', JObj [(''record_id'', JStr [])], ''12.json'')]"
proof -
  have s1: "path_stem ''12-report.json'' = ''12'' @ ''-report''" 
    by (simp add: path_stem_def rfind_dot_def)
  have s2: "path_stem ''12.json'' = ''12''" 
    by (simp add: path_stem_def rfind_dot_def)
  have "report_key ''12-report.json'' (JObj [(''record_id'', JInt 7)]) = Some (py_str (JInt 7))"
    using report_key_priority[of "[(''record_id'', JInt 7)]" "JInt 7" "''12-report.json''"] by simp
  moreover have "py_str (JInt 7) = ''7''" by (simp add: py_str_def str_of_int_def digit_char_def str_of_nat.simps)
  moreover have "report_key ''12-report.json'' (JObj []) = Some ''12''"
    using report_key_priority[of "[]" JNull "''12-report.json''"] s1 by simp
  moreover have k3: "report_key ''12.json'' (JObj [(''record_id'', JStr [])]) = Some ''12''"
    using report_key_priority[of "[(''record_id'', JStr [])]" JNull "''12.json''"] s2 by simp
  moreover have "report_map_loop [(''-report.json'', File (Some (JObj []))),
                    (''12.json'', File (Some (JObj [(''record_id'', JStr [])])))] []
     = Some [(''12'', JObj [(''record_id'', JStr [])], ''12.json'')]"
  proof -
    have s3: "path_stem ''-report.json'' = ''-report''"
      by (simp add: path_stem_def rfind_dot_def)
    have k0: "report_key ''-report.json'' (JObj []) = Some []"
      using report_key_priority[of "[]" JNull "''-report.json''"] s3 by simp
    have "report_map_loop [(''-report.json'', File (Some (JObj []))),
                    (''12.json'', File (Some (JObj [(''record_id'', JStr [])])))] []
        = report_map_loop [(''12.json'', File (Some (JObj [(''record_id'', JStr [])])))] []"
      using report_key_priority[of "[]" JNull "''-report.json''"] k0 by simp
    also have "\<dots> = report_map_loop [] [(''12'', JObj [(''record_id'', JStr [])], ''12.json'')]"
      using report_key_priority[of "[(''record_id'', JStr [])]" JNull "''12.json''"] k3
      by simp
    finally show ?thesis by simp
  qed
  ultimately show ?thesis by simp
qed

text \<open>
  C9 as stated fails: the report file \<open>-report.json\<close> with no \<open>record_id\<close> gets
  the empty key (which \<open>process\<close> then skips).
\<close>

theorem report_key_empty_counterexample:
  "report_key ''-report.json'' (JObj []) = Some []"
  by (simp add: report_key_def path_stem_def rfind_dot_def py_endswith_def)

section \<open>Related identifiers: append-only, in order, without new duplicates\<close>

lemma py_eq_sym_hashable: "hashable a \<Longrightarrow> hashable b \<Longrightarrow> py_eq a b = py_eq b a"
  by (cases a; cases b) auto

lemma py_eq_refl_hashable: "hashable a \<Longrightarrow> py_eq a a"
  by (cases a) auto

lemma distinct_ids_append:
  "distinct_ids (a @ b) \<longleftrightarrow>
     distinct_ids a \<and> distinct_ids b \<and> (\<forall>x\<in>set a. \<forall>y\<in>set b. \<not> py_eq x y)"
  by (induction a) (auto simp: list_ex_iff)

lemma ids_of_append [simp]: "ids_of (a @ b) = ids_of a @ ids_of b"
  by (simp add: ids_of_def)

lemma map_option_list_Some:
  "map_option_list f xs = Some ys \<Longrightarrow> length ys = length xs \<and> (\<forall>i<length xs. f (xs ! i) = Some (ys ! i))"
proof (induction xs arbitrary: ys)
  case Nil
  then show ?case by simp
next
  case (Cons x xs)
  then obtain y ys' where y: "f x = Some y" "map_option_list f xs = Some ys'" "ys = y # ys'"
    by (auto split: bind_splits)
  with Cons.IH[OF y(2)] show ?case by (auto simp: nth_Cons split: nat.splits)
qed

lemma existing_ids_are_ids:
  "map_option_list existing_id xs = Some ids \<Longrightarrow> ids = ids_of xs \<and> list_all hashable ids"
proof (induction xs arbitrary: ids)
  case Nil
  then show ?case by (simp add: ids_of_def)
next
  case (Cons x xs)
  then obtain y ys' where y: "existing_id x = Some y" "map_option_list existing_id xs = Some ys'"
    "ids = y # ys'"
    by (auto split: bind_splits)
  from y(1) have "identifier_of x = Some y" "hashable y"
    by (auto simp: existing_id_def split: bind_splits if_splits)
  with Cons.IH[OF y(2)] y(3) show ?case by (auto simp: ids_of_def)
qed

lemma add_loop_not_list:
  "add_loop idents e ids added = Some (e', added') \<Longrightarrow> \<forall>xs. e \<noteq> JList xs \<Longrightarrow>
   e' = e \<and> added' = added"
proof (induction idents arbitrary: ids added)
  case Nil
  then show ?case by simp
next
  case (Cons x idents)
  from Cons.prems(2) have na: "list_append e x = None" by (cases e) auto
  from Cons.prems(1) na show ?case
    by (auto split: bind_splits if_splits dest: Cons.IH[OF _ Cons.prems(2)])
qed

lemma add_loop_spec:
  "add_loop idents (JList xs) ids added = Some (e', added') \<Longrightarrow>
   ids = ids_of xs \<Longrightarrow> list_all hashable ids \<Longrightarrow>
   \<exists>new. e' = JList (xs @ new) \<and> added' = added + length new \<and> subseq new idents \<and>
     (\<forall>x\<in>set new. \<exists>i. identifier_of x = Some i \<and> truthy i \<and> hashable i \<and>
        \<not> list_ex (py_eq i) ids) \<and>
     distinct_ids (ids_of new) \<and>
     (\<forall>x\<in>set idents. \<forall>i. identifier_of x = Some i \<and> truthy i \<longrightarrow>
        list_ex (py_eq i) (ids_of (xs @ new)))"
proof (induction idents arbitrary: xs ids added)
  case Nil
  then show ?case by (auto simp: ids_of_def)
next
  case (Cons x idents)
  from Cons.prems(1) obtain ident where ident: "identifier_of x = Some ident"
    by (auto split: bind_splits)
  show ?case
  proof (cases "truthy ident")
    case False
    with Cons.prems(1) ident
    have rec: "add_loop idents (JList xs) ids added = Some (e', added')" by simp
    from Cons.IH[OF rec Cons.prems(2,3)] obtain new where new:
      "e' = JList (xs @ new)" "added' = added + length new" "subseq new idents"
      "\<forall>x\<in>set new. \<exists>i. identifier_of x = Some i \<and> truthy i \<and> hashable i \<and>
        \<not> list_ex (py_eq i) ids"
      "distinct_ids (ids_of new)"
      "\<forall>x\<in>set idents. \<forall>i. identifier_of x = Some i \<and> truthy i \<longrightarrow>
        list_ex (py_eq i) (ids_of (xs @ new))"
      by blast
    show ?thesis
      apply (rule exI[of _ new])
      using new ident False by (auto intro: subseq_Cons')
  next
    case True
    with Cons.prems(1) ident obtain present where
      present: "set_member ident ids = Some present"
      by (auto split: bind_splits)
    then have h: "hashable ident" and pres: "present = list_ex (py_eq ident) ids"
      by (auto simp: set_member_def split: if_splits)
    show ?thesis
    proof (cases present)
      case True
      with Cons.prems(1) ident \<open>truthy ident\<close> present
      have rec: "add_loop idents (JList xs) ids added = Some (e', added')" by simp
      from Cons.IH[OF rec Cons.prems(2,3)] obtain new where new:
        "e' = JList (xs @ new)" "added' = added + length new" "subseq new idents"
        "\<forall>x\<in>set new. \<exists>i. identifier_of x = Some i \<and> truthy i \<and> hashable i \<and>
          \<not> list_ex (py_eq i) ids"
        "distinct_ids (ids_of new)"
        "\<forall>x\<in>set idents. \<forall>i. identifier_of x = Some i \<and> truthy i \<longrightarrow>
          list_ex (py_eq i) (ids_of (xs @ new))"
        by blast
      from True pres Cons.prems(2) have "list_ex (py_eq ident) (ids_of (xs @ new))"
        by (auto simp: list_ex_iff)
      then show ?thesis
        apply (intro exI[of _ new])
        using new ident by (auto intro: subseq_Cons')
    next
      case False
      with Cons.prems(1) ident \<open>truthy ident\<close> present
      have rec: "add_loop idents (JList (xs @ [x])) (ids @ [ident]) (added + 1) = Some (e', added')"
        by simp
      have ids': "ids @ [ident] = ids_of (xs @ [x])"
        using Cons.prems(2) ident by (simp add: ids_of_def)
      have hs': "list_all hashable (ids @ [ident])" using Cons.prems(3) h by simp
      from Cons.IH[OF rec ids' hs'] obtain new where new:
        "e' = JList ((xs @ [x]) @ new)" "added' = added + 1 + length new" "subseq new idents"
        "\<forall>y\<in>set new. \<exists>i. identifier_of y = Some i \<and> truthy i \<and> hashable i \<and>
          \<not> list_ex (py_eq i) (ids @ [ident])"
        "distinct_ids (ids_of new)"
        "\<forall>y\<in>set idents. \<forall>i. identifier_of y = Some i \<and> truthy i \<longrightarrow>
          list_ex (py_eq i) (ids_of ((xs @ [x]) @ new))"
        by blast
      have notin: "\<not> list_ex (py_eq ident) (ids_of new)"
      proof
        assume "list_ex (py_eq ident) (ids_of new)"
        then obtain y where y: "y \<in> set new"
          "py_eq ident (case identifier_of y of None \<Rightarrow> JNull | Some i \<Rightarrow> i)"
          by (auto simp: list_ex_iff ids_of_def)
        from new(4) y(1) obtain j where j: "identifier_of y = Some j" "hashable j"
          "\<not> list_ex (py_eq j) (ids @ [ident])" by blast
        from j(3) have "\<not> py_eq j ident" by (simp add: list_ex_iff)
        with py_eq_sym_hashable[OF h j(2)] y(2) j(1) show False by simp
      qed
      have self: "list_ex (py_eq ident) (ids_of ((xs @ [x]) @ new))"
        using ident py_eq_refl_hashable[OF h] by (simp add: ids_of_def list_ex_iff)
      show ?thesis
        apply (intro exI[of _ "x # new"])
        using new ident \<open>truthy ident\<close> h False pres notin self
        by (auto simp: ids_of_def list_ex_iff)
    qed
  qed
qed


lemma setdefault_related_of:
  assumes "setdefault r ''metadata'' (JObj []) = Some (m, r1)"
    and "setdefault m ''related_identifiers'' (JList []) = Some (e, m1)"
  shows "related_of r = (case e of JList xs \<Rightarrow> xs | _ \<Rightarrow> [])"
proof -
  from assms(1) obtain kvs where r: "r = JObj kvs" by (cases r) auto
  from assms(2) obtain mkvs where m: "m = JObj mkvs" by (cases m) auto
  show ?thesis
  proof (cases "map_of kvs ''metadata''")
    case None
    with assms r m show ?thesis
      by (auto simp: related_of_def metadata_field_def top_field_def split: option.splits)
  next
    case (Some a)
    with assms r m show ?thesis
      by (auto simp: related_of_def metadata_field_def top_field_def split: option.splits)
  qed
qed

lemma dict_set_related_of:
  assumes "dict_set m1 ''related_identifiers'' e' = Some m2"
    and "dict_set r1 ''metadata'' m2 = Some r'"
  shows "related_of r' = (case e' of JList xs \<Rightarrow> xs | _ \<Rightarrow> [])"
proof -
  from assms(1) obtain mkvs where m: "m1 = JObj mkvs" by (cases m1) auto
  from assms(2) obtain kvs where r: "r1 = JObj kvs" by (cases r1) auto
  from assms m r show ?thesis
    by (auto simp: related_of_def metadata_field_def top_field_def update_conv')
qed

lemma iter_items_falsy: "\<not> truthy v \<Longrightarrow> iter_items v = []"
  by (cases v) (auto simp: iter_items_def)

lemma add_related_identifiers_core:
  assumes "add_related_identifiers r identifiers = Some (r', added)"
  shows "\<exists>new. related_of r' = related_of r @ new \<and> length new = added \<and>
     subseq new (iter_items identifiers) \<and>
     (\<forall>x\<in>set new. \<exists>i. identifier_of x = Some i \<and> truthy i \<and>
        \<not> list_ex (py_eq i) (ids_of (related_of r))) \<and>
     distinct_ids (ids_of new) \<and>
     (\<forall>x\<in>set (iter_items identifiers). \<forall>i. identifier_of x = Some i \<and> truthy i \<longrightarrow>
        list_ex (py_eq i) (ids_of (related_of r'))) \<and>
     (distinct_ids (ids_of (related_of r)) \<longrightarrow> distinct_ids (ids_of (related_of r')))"
proof (cases "truthy identifiers")
  case False
  with assms have "r' = r" "added = 0" by (auto simp: add_related_identifiers_def)
  with False show ?thesis by (auto simp: iter_items_falsy ids_of_def)
next
  case True
  with assms obtain m r1 e m1 items ids idents e' m2 where
    sd1: "setdefault r ''metadata'' (JObj []) = Some (m, r1)" and
    sd2: "setdefault m ''related_identifiers'' (JList []) = Some (e, m1)" and
    it: "py_iter e = Some items" and
    ex: "map_option_list existing_id items = Some ids" and
    idn: "py_iter identifiers = Some idents" and
    loop: "add_loop idents e ids 0 = Some (e', added)" and
    ds1: "dict_set m1 ''related_identifiers'' e' = Some m2" and
    ds2: "dict_set r1 ''metadata'' m2 = Some r'"
    by (auto simp: add_related_identifiers_def split: bind_splits)
  note before = setdefault_related_of[OF sd1 sd2]
  note after = dict_set_related_of[OF ds1 ds2]
  from idn have items: "iter_items identifiers = idents" by (simp add: iter_items_def)
  show ?thesis
  proof (cases "\<exists>xs. e = JList xs")
    case False
    then have nl: "\<forall>xs. e \<noteq> JList xs" by blast
    from add_loop_not_list[OF loop nl] have same: "e' = e" "added = 0" by auto
    have "items = []"
    proof (cases items)
      case (Cons i rest)
      with it nl have "\<exists>s. i = JStr s" by (cases e) auto
      with ex Cons show ?thesis
        by (auto simp: existing_id_def identifier_of_def split: bind_splits)
    qed simp
    with ex have noids: "ids = []" by simp
    from nl have rel: "related_of r = []" unfolding before by (cases e) auto
    from nl same have rel': "related_of r' = []" unfolding after by (cases e) auto
    have none: "\<forall>x\<in>set idents. \<forall>i. identifier_of x = Some i \<longrightarrow> \<not> truthy i"
    proof (intro ballI allI impI)
      fix x i assume x: "x \<in> set idents" "identifier_of x = Some i"
      show "\<not> truthy i"
      proof
        assume t: "truthy i"
        from x(1) obtain pre post where sp: "idents = pre @ x # post"
          by (meson split_list)
        have "\<And>a. add_loop (pre @ x # post) e [] a = None"
        proof (induction pre)
          case Nil
          have "list_append e x = None" using nl by (cases e) auto
          then show ?case using x(2) t
            by (auto simp: set_member_def split: bind_splits)
        next
          case (Cons p pre)
          have "list_append e p = None" using nl by (cases e) auto
          then show ?case using Cons
            by (auto simp: set_member_def split: bind_splits)
        qed
        with loop sp noids show False by simp
      qed
    qed
    show ?thesis
      apply (rule exI[of _ "[]"])
      using same rel rel' items none by (auto simp: ids_of_def)
  next
    case True
    then obtain xs where e: "e = JList xs" ..
    with it have "items = xs" by simp
    with ex existing_ids_are_ids[of xs ids] have ids: "ids = ids_of xs" "list_all hashable ids"
      by auto
    from add_loop_spec[OF loop[unfolded e] ids] obtain new where new:
      "e' = JList (xs @ new)" "added = 0 + length new" "subseq new idents"
      "\<forall>x\<in>set new. \<exists>i. identifier_of x = Some i \<and> truthy i \<and> hashable i \<and>
        \<not> list_ex (py_eq i) ids"
      "distinct_ids (ids_of new)"
      "\<forall>x\<in>set idents. \<forall>i. identifier_of x = Some i \<and> truthy i \<longrightarrow>
        list_ex (py_eq i) (ids_of (xs @ new))"
      by blast
    from e have rel: "related_of r = xs" unfolding before by simp
    from new(1) have rel': "related_of r' = xs @ new" unfolding after by simp
    have cross: "\<forall>a\<in>set (ids_of xs). \<forall>b\<in>set (ids_of new). \<not> py_eq a b"
    proof (intro ballI)
      fix a b assume a: "a \<in> set (ids_of xs)" and b: "b \<in> set (ids_of new)"
      from b obtain y where y: "y \<in> set new"
        "b = (case identifier_of y of None \<Rightarrow> JNull | Some i \<Rightarrow> i)"
        by (auto simp: ids_of_def)
      from new(4) y(1) obtain j where j: "identifier_of y = Some j" "hashable j"
        "\<not> list_ex (py_eq j) ids" by blast
      from a ids have ha: "hashable a" by (auto simp: list_all_iff)
      from j(3) a ids(1) have "\<not> py_eq j a" by (auto simp: list_ex_iff)
      with py_eq_sym_hashable[OF ha j(2)] y(2) j(1) show "\<not> py_eq a b" by simp
    qed
    show ?thesis
      apply (rule exI[of _ new])
      using new rel rel' items ids cross by (auto simp: distinct_ids_append)
  qed
qed

text \<open>
  C4, as amended. Whenever \<open>add_related_identifiers\<close> returns, the related identifiers
  of the result are those of the input followed by the added entries \<open>new\<close>: the
  existing sequence is a prefix, unchanged; \<open>new\<close> is a subsequence of the input
  list, in input order, and its length is the returned count; every added entry has a
  non-empty identifier that no existing entry has; no two added entries share an
  identifier; every input entry with a non-empty identifier has its identifier in the
  output. The output has no duplicate identifiers whenever the existing sequence had
  none.
\<close>

theorem add_related_identifiers_contract:
  assumes "add_related_identifiers r identifiers = Some (r', added)"
  shows "\<exists>new. related_of r' = related_of r @ new \<and> length new = added \<and>
     subseq new (iter_items identifiers) \<and>
     (\<forall>x\<in>set new. \<exists>i. identifier_of x = Some i \<and> truthy i \<and>
        \<not> list_ex (py_eq i) (ids_of (related_of r))) \<and>
     distinct_ids (ids_of new) \<and>
     (\<forall>x\<in>set (iter_items identifiers). \<forall>i. identifier_of x = Some i \<and> truthy i \<longrightarrow>
        list_ex (py_eq i) (ids_of (related_of r'))) \<and>
     (distinct_ids (ids_of (related_of r)) \<longrightarrow> distinct_ids (ids_of (related_of r')))"
  using assms by (rule add_related_identifiers_core)

theorem add_related_identifiers_contract_witness:
  "add_related_identifiers
     (JObj [(''metadata'', JObj [(''related_identifiers'', JList [JObj [(''identifier'', JStr ''a'')]])])])
     (JList [JObj [(''identifier'', JStr ''b'')], JObj [(''identifier'', JStr ''a'')],
             JObj [(''identifier'', JStr [])], JObj [(''identifier'', JStr ''b'')]])
   = Some (JObj [(''metadata'', JObj [(''related_identifiers'',
        JList [JObj [(''identifier'', JStr ''a'')], JObj [(''identifier'', JStr ''b'')]])])], 1) \<and>
   (\<exists>new. related_of (JObj [(''metadata'', JObj [(''related_identifiers'',
        JList [JObj [(''identifier'', JStr ''a'')], JObj [(''identifier'', JStr ''b'')]])])])
      = related_of (JObj [(''metadata'', JObj [(''related_identifiers'',
          JList [JObj [(''identifier'', JStr ''a'')]])])]) @ new \<and>
      length new = 1 \<and> distinct_ids (ids_of new))"
proof -
  let ?r = "JObj [(''metadata'', JObj [(''related_identifiers'', JList [JObj [(''identifier'', JStr ''a'')]])])]"
  let ?ids = "JList [JObj [(''identifier'', JStr ''b'')], JObj [(''identifier'', JStr ''a'')],
             JObj [(''identifier'', JStr [])], JObj [(''identifier'', JStr ''b'')]]"
  let ?r' = "JObj [(''metadata'', JObj [(''related_identifiers'',
        JList [JObj [(''identifier'', JStr ''a'')], JObj [(''identifier'', JStr ''b'')]])])]"
  have run: "add_related_identifiers ?r ?ids = Some (?r', 1)"
    by (simp add: add_related_identifiers_def existing_id_def identifier_of_def set_member_def)
  from add_related_identifiers_contract[OF run] show ?thesis using run by blast
qed

text \<open>
  C4 as stated fails: identifiers that are already duplicated in the record stay
  duplicated in the output, since existing entries are never removed.
\<close>

theorem add_related_identifiers_duplicates_counterexample:
  "add_related_identifiers
     (JObj [(''metadata'', JObj [(''related_identifiers'',
        JList [JObj [(''identifier'', JStr ''a'')], JObj [(''identifier'', JStr ''a'')]])])])
     (JList [JObj [(''identifier'', JStr ''b'')]])
   = Some (JObj [(''metadata'', JObj [(''related_identifiers'',
        JList [JObj [(''identifier'', JStr ''a'')], JObj [(''identifier'', JStr ''a'')],
               JObj [(''identifier'', JStr ''b'')]])])], 1) \<and>
   \<not> distinct_ids (ids_of
        [JObj [(''identifier'', JStr ''a'')], JObj [(''identifier'', JStr ''a'')],
         JObj [(''identifier'', JStr ''b'')]])"
  by (simp add: add_related_identifiers_def existing_id_def identifier_of_def set_member_def
      ids_of_def)

section \<open>The orchestrator, stage by stage\<close>

lemma apply_corrections_stages:
  "apply_corrections r report = do {
     corrections \<leftarrow> effective_corrections report;
     st6 \<leftarrow> after_org r report;
     st7 \<leftarrow> related_step corrections st6;
     Some (doc st7, changed st7, actions st7, unapplied st7)
   }"
  by (cases "dict_get report ''corrections'' (JObj [])")
    (simp_all add: apply_corrections_def after_org_def after_descriptors_def
      effective_corrections_def Let_def)

lemma related_step_falsy:
  "\<not> truthy (related_value corrections) \<Longrightarrow> related_step corrections st = Some st"
  by (cases corrections) (auto simp: related_step_def related_value_def split: option.splits)

lemma related_step_truthy:
  "truthy (related_value corrections) \<Longrightarrow>
   related_step corrections st = do {
     (record', added) \<leftarrow> add_related_identifiers (doc st) (as_list (related_value corrections));
     Some (if added > 0
           then st\<lparr>doc := record',
                   actions := actions st @
                     [''Related identifiers added ('' @ str_of_nat added @ '')''],
                   changed := True\<rparr>
           else st\<lparr>doc := record'\<rparr>)
   }"
  by (cases corrections)
    (auto simp: related_step_def related_value_def as_list_def split: option.splits)

text \<open>
  C10. With \<open>st6\<close> the state after the first six blocks of \<open>apply_corrections\<close>:
  a falsy \<open>related_identifiers\<close> value is skipped entirely (the result is
  \<open>st6\<close>); a truthy one is passed to \<open>add_related_identifiers\<close> whatever flags the
  report holds, and when it adds nothing the \<open>changed\<close> flag, the actions and the
  unapplied notes are those of \<open>st6\<close>; when it adds \<open>n > 0\<close> identifiers one
  action is appended and \<open>changed\<close> is set.
\<close>

theorem related_identifiers_stage:
  assumes "effective_corrections report = Some corrections"
    and "after_org r report = Some st6"
  shows "(\<not> truthy (related_value corrections) \<longrightarrow>
           apply_corrections r report =
             Some (doc st6, changed st6, actions st6, unapplied st6)) \<and>
         (truthy (related_value corrections) \<longrightarrow>
           (\<forall>r'. add_related_identifiers (doc st6) (as_list (related_value corrections))
                   = Some (r', 0) \<longrightarrow>
                 apply_corrections r report =
                   Some (r', changed st6, actions st6, unapplied st6)) \<and>
           (\<forall>r' n. add_related_identifiers (doc st6) (as_list (related_value corrections))
                   = Some (r', Suc n) \<longrightarrow>
                 apply_corrections r report =
                   Some (r', True,
                         actions st6 @
                           [''Related identifiers added ('' @ str_of_nat (Suc n) @ '')''],
                         unapplied st6)))"
  using assms
  by (auto simp: apply_corrections_stages related_step_falsy related_step_truthy)

theorem related_identifiers_stage_witness:
  "apply_corrections
     (JObj [(''metadata'', JObj [(''related_identifiers'', JList [JObj [(''identifier'', JStr ''a'')]])])])
     (JObj [(''corrections'', JObj [(''related_identifiers'',
        JList [JObj [(''identifier'', JStr ''a'')], JObj [(''identifier'', JStr [])]])])])
   = Some (JObj [(''metadata'', JObj [(''related_identifiers'', JList [JObj [(''identifier'', JStr ''a'')]])])],
           False, [], [])"
proof -
  let ?r = "JObj [(''metadata'', JObj [(''related_identifiers'', JList [JObj [(''identifier'', JStr ''a'')]])])]"
  let ?c = "JObj [(''related_identifiers'',
        JList [JObj [(''identifier'', JStr ''a'')], JObj [(''identifier'', JStr [])]])]"
  let ?rep = "JObj [(''corrections'', ?c)]"
  let ?st = "\<lparr>doc = ?r, changed = False, actions = [], unapplied = []\<rparr>"
  have c: "effective_corrections ?rep = Some ?c"
    by (simp add: effective_corrections_def)
  have d: "after_descriptors ?r ?rep = Some ?st"
    by (simp add: after_descriptors_def c title_step_def abstract_step_def date_step_def
        descriptor_step_def)
  have o: "after_org ?r ?rep = Some ?st"
    by (simp add: after_org_def d affiliation_step_def org_step_def apply_affiliations_def)
  have v: "related_value ?c = JList [JObj [(''identifier'', JStr ''a'')], JObj [(''identifier'', JStr [])]]"
    by (simp add: related_value_def)
  have a: "add_related_identifiers ?r (as_list (related_value ?c)) = Some (?r, 0)"
    by (simp add: v as_list_def add_related_identifiers_def existing_id_def identifier_of_def
        set_member_def)
  from related_identifiers_stage[OF c o] a v show ?thesis by simp
qed

section \<open>Affiliation corrections and their gate flag\<close>

lemma apply_corrections_blocks:
  "apply_corrections r report = do {
     corrections \<leftarrow> effective_corrections report;
     st4 \<leftarrow> after_descriptors r report;
     st5 \<leftarrow> affiliation_step report st4;
     after_affiliations report corrections st5
   }"
  by (cases "dict_get report ''corrections'' (JObj [])")
    (simp_all add: apply_corrections_def after_descriptors_def after_affiliations_def
      effective_corrections_def Let_def)

lemma title_step_unapplied:
  "title_step report c st = Some st' \<Longrightarrow>
   set (unapplied st') \<subseteq>
     insert ''Title correction present but title_corrected=false'' (set (unapplied st))"
  by (auto simp: title_step_def split: bind_splits if_splits)

lemma abstract_step_unapplied:
  "abstract_step report c st = Some st' \<Longrightarrow>
   set (unapplied st') \<subseteq>
     insert ''Abstract correction present but abstract_corrected=false'' (set (unapplied st))"
  by (auto simp: abstract_step_def split: bind_splits if_splits)

lemma date_step_unapplied:
  "date_step report c st = Some st' \<Longrightarrow>
   set (unapplied st') \<subseteq>
     insert ''Publication date correction present but date_corrected=false''
       (set (unapplied st))"
  by (auto simp: date_step_def split: bind_splits if_splits)

lemma descriptor_step_unapplied:
  "descriptor_step report c st = Some st' \<Longrightarrow>
   set (unapplied st') \<subseteq>
     insert ''Descriptor deletions present but descriptor_corrected=false''
       (set (unapplied st))"
  by (auto simp: descriptor_step_def Let_def split: bind_splits if_splits)

lemma after_descriptors_unapplied:
  assumes "after_descriptors r report = Some st4"
  shows "set (unapplied st4) \<subseteq>
    {''Title correction present but title_corrected=false'',
     ''Abstract correction present but abstract_corrected=false'',
     ''Publication date correction present but date_corrected=false'',
     ''Descriptor deletions present but descriptor_corrected=false''}"
proof -
  from assms obtain c st1 st2 st3 where
    s1: "title_step report c \<lparr>doc = r, changed = False, actions = [], unapplied = []\<rparr> = Some st1"
    and s2: "abstract_step report c st1 = Some st2"
    and s3: "date_step report c st2 = Some st3"
    and s4: "descriptor_step report c st3 = Some st4"
    by (auto simp: after_descriptors_def split: bind_splits)
  have chain: "A4 \<subseteq> {a, b, c, d}"
    if "A1 \<subseteq> insert a {}" "A2 \<subseteq> insert b A1" "A3 \<subseteq> insert c A2" "A4 \<subseteq> insert d A3"
    for a b c d :: string and A1 A2 A3 A4
    using that by blast
  from title_step_unapplied[OF s1]
  have 1: "set (unapplied st1) \<subseteq>
      insert ''Title correction present but title_corrected=false'' {}" by simp
  show ?thesis
    by (rule chain[OF 1 abstract_step_unapplied[OF s2] date_step_unapplied[OF s3]
          descriptor_step_unapplied[OF s4]])
qed

lemma after_affiliations_unapplied:
  assumes "after_affiliations report c st5 = Some (r', chg, acts, un)"
  shows "un = unapplied st5 \<or>
         un = unapplied st5 @
           [''Organizational author corrections present but no matches found'']"
proof -
  from assms obtain st6 st7 where s6: "org_step report st5 = Some st6"
    and s7: "related_step c st6 = Some st7" and un: "un = unapplied st7"
    by (auto simp: after_affiliations_def split: bind_splits)
  from s6 have "unapplied st6 = unapplied st5 \<or>
      unapplied st6 = unapplied st5 @
        [''Organizational author corrections present but no matches found'']"
    by (auto simp: org_step_def Let_def split: bind_splits if_splits)
  moreover from s7 have "unapplied st7 = unapplied st6"
    by (auto simp: related_step_def split: bind_splits if_splits)
  ultimately show ?thesis using un by auto
qed

lemma affiliation_step_gated:
  assumes "dict_get report ''affiliation_corrections'' (JList []) = Some a" "truthy a"
    and "dict_get report ''affiliation_correction_recommended'' (JBool True) = Some gate"
  shows "affiliation_step report st4 =
      (if truthy gate then
         (case apply_affiliations (doc st4) a of
            None \<Rightarrow> None
          | Some (r5, n) \<Rightarrow>
              Some (if 0 < n
                    then st4\<lparr>doc := r5,
                             actions := actions st4 @
                               [''Affiliations corrected ('' @ str_of_nat n @ '')''],
                             changed := True\<rparr>
                    else st4\<lparr>doc := r5,
                             unapplied := unapplied st4 @
                               [''Affiliation corrections present but no matches found'']\<rparr>))
       else Some (st4\<lparr>unapplied := unapplied st4 @
              [''Affiliation corrections present but affiliation_correction_recommended=false'']\<rparr>))"
  using assms by (cases "apply_affiliations (doc st4) a") (auto simp: affiliation_step_def)

lemma affiliation_notes_distinct:
  "''Affiliation corrections present but affiliation_correction_recommended=false''
     \<noteq> ''Organizational author corrections present but no matches found''"
  "''Affiliation corrections present but no matches found''
     \<noteq> ''Organizational author corrections present but no matches found''"
  "''Affiliation corrections present but affiliation_correction_recommended=false''
     \<noteq> ''Affiliation corrections present but no matches found''"
  by simp_all

lemma affiliation_notes_fresh:
  assumes "after_descriptors r report = Some st4"
  shows "''Affiliation corrections present but affiliation_correction_recommended=false''
           \<notin> set (unapplied st4)"
    and "''Affiliation corrections present but no matches found'' \<notin> set (unapplied st4)"
proof -
  note old = after_descriptors_unapplied[OF assms]
  have gen: "x \<notin> A" if "A \<subseteq> S" "x \<notin> S" for x :: string and A S
    using that by blast
  have "''Affiliation corrections present but affiliation_correction_recommended=false''
      \<notin> {''Title correction present but title_corrected=false'',
     ''Abstract correction present but abstract_corrected=false'',
     ''Publication date correction present but date_corrected=false'',
     ''Descriptor deletions present but descriptor_corrected=false''}"
    by simp
  then show "''Affiliation corrections present but affiliation_correction_recommended=false''
      \<notin> set (unapplied st4)"
    by (rule gen[OF old])
  have "''Affiliation corrections present but no matches found''
      \<notin> {''Title correction present but title_corrected=false'',
     ''Abstract correction present but abstract_corrected=false'',
     ''Publication date correction present but date_corrected=false'',
     ''Descriptor deletions present but descriptor_corrected=false''}"
    by simp
  then show "''Affiliation corrections present but no matches found'' \<notin> set (unapplied st4)"
    by (rule gen[OF old])
qed

lemma tail_notes:
  assumes "after_affiliations report c st5 = Some (r', chg, acts, un)"
    and "x \<noteq> ''Organizational author corrections present but no matches found''"
  shows "(x \<in> set un) = (x \<in> set (unapplied st5))"
  using after_affiliations_unapplied[OF assms(1)] assms(2) by auto

lemma affiliation_gate_core:
  assumes c: "effective_corrections report = Some c"
    and st4: "after_descriptors r report = Some st4"
    and a: "dict_get report ''affiliation_corrections'' (JList []) = Some a" "truthy a"
    and g: "dict_get report ''affiliation_correction_recommended'' (JBool True) = Some gate"
  shows "(truthy gate \<longrightarrow>
            (apply_affiliations (doc st4) a = None \<longrightarrow> apply_corrections r report = None) \<and>
            (\<forall>r5 n. apply_affiliations (doc st4) a = Some (r5, Suc n) \<longrightarrow>
               apply_corrections r report =
                 after_affiliations report c
                   (st4\<lparr>doc := r5,
                        actions := actions st4 @
                          [''Affiliations corrected ('' @ str_of_nat (Suc n) @ '')''],
                        changed := True\<rparr>)) \<and>
            (\<forall>r5. apply_affiliations (doc st4) a = Some (r5, 0) \<longrightarrow>
               apply_corrections r report =
                 after_affiliations report c
                   (st4\<lparr>doc := r5,
                        unapplied := unapplied st4 @
                          [''Affiliation corrections present but no matches found'']\<rparr>))) \<and>
         (\<not> truthy gate \<longrightarrow>
            apply_corrections r report =
              after_affiliations report c
                (st4\<lparr>unapplied := unapplied st4 @
                   [''Affiliation corrections present but affiliation_correction_recommended=false'']\<rparr>)) \<and>
         (\<forall>r' chg acts un. apply_corrections r report = Some (r', chg, acts, un) \<longrightarrow>
            ((''Affiliation corrections present but affiliation_correction_recommended=false''
               \<in> set un) = (\<not> truthy gate)) \<and>
            ((''Affiliation corrections present but no matches found'' \<in> set un) =
               (truthy gate \<and> (\<exists>r5. apply_affiliations (doc st4) a = Some (r5, 0)))))"
proof -
  note step = affiliation_step_gated[OF a g, of st4]
  have eq: "apply_corrections r report =
      Option.bind (affiliation_step report st4) (after_affiliations report c)"
    by (simp add: apply_corrections_blocks c st4)
  note fresh = affiliation_notes_fresh[OF st4]
  note ne = affiliation_notes_distinct
  have A: "truthy gate \<longrightarrow>
            (apply_affiliations (doc st4) a = None \<longrightarrow> apply_corrections r report = None) \<and>
            (\<forall>r5 n. apply_affiliations (doc st4) a = Some (r5, Suc n) \<longrightarrow>
               apply_corrections r report =
                 after_affiliations report c
                   (st4\<lparr>doc := r5,
                        actions := actions st4 @
                          [''Affiliations corrected ('' @ str_of_nat (Suc n) @ '')''],
                        changed := True\<rparr>)) \<and>
            (\<forall>r5. apply_affiliations (doc st4) a = Some (r5, 0) \<longrightarrow>
               apply_corrections r report =
                 after_affiliations report c
                   (st4\<lparr>doc := r5,
                        unapplied := unapplied st4 @
                          [''Affiliation corrections present but no matches found'']\<rparr>))"
    by (simp add: eq step)
  have B: "\<not> truthy gate \<longrightarrow>
            apply_corrections r report =
              after_affiliations report c
                (st4\<lparr>unapplied := unapplied st4 @
                   [''Affiliation corrections present but affiliation_correction_recommended=false'']\<rparr>)"
    by (simp add: eq step)
  have C: "((''Affiliation corrections present but affiliation_correction_recommended=false''
               \<in> set un) = (\<not> truthy gate)) \<and>
            ((''Affiliation corrections present but no matches found'' \<in> set un) =
               (truthy gate \<and> (\<exists>r5. apply_affiliations (doc st4) a = Some (r5, 0))))"
    if run: "apply_corrections r report = Some (r', chg, acts, un)" for r' chg acts un
  proof -
    from run eq obtain st5 where s5: "affiliation_step report st4 = Some st5"
      and tail: "after_affiliations report c st5 = Some (r', chg, acts, un)"
      by (auto split: bind_splits)
    note t1 = tail_notes[OF tail ne(1)] and t2 = tail_notes[OF tail ne(2)]
    show ?thesis
    proof (cases "truthy gate")
      case False
      with s5 step have "unapplied st5 = unapplied st4 @
          [''Affiliation corrections present but affiliation_correction_recommended=false'']"
        by auto
      with False fresh ne(3) show ?thesis by (simp add: t1 t2)
    next
      case True
      with s5 step obtain r5 n where res: "apply_affiliations (doc st4) a = Some (r5, n)"
        by (cases "apply_affiliations (doc st4) a") auto
      show ?thesis
      proof (cases n)
        case 0
        with True s5 step res have "unapplied st5 = unapplied st4 @
            [''Affiliation corrections present but no matches found'']"
          by auto
        with True fresh ne(3) res 0 show ?thesis by (simp add: t1 t2)
      next
        case (Suc m)
        with True s5 step res have "unapplied st5 = unapplied st4" by auto
        with True fresh res Suc show ?thesis by (simp add: t1 t2)
      qed
    qed
  qed
  have C': "\<forall>r' chg acts un. apply_corrections r report = Some (r', chg, acts, un) \<longrightarrow>
            ((''Affiliation corrections present but affiliation_correction_recommended=false''
               \<in> set un) = (\<not> truthy gate)) \<and>
            ((''Affiliation corrections present but no matches found'' \<in> set un) =
               (truthy gate \<and> (\<exists>r5. apply_affiliations (doc st4) a = Some (r5, 0))))"
  proof (intro allI impI)
    fix r' chg acts un
    assume "apply_corrections r report = Some (r', chg, acts, un)"
    then show "((''Affiliation corrections present but affiliation_correction_recommended=false''
               \<in> set un) = (\<not> truthy gate)) \<and>
            ((''Affiliation corrections present but no matches found'' \<in> set un) =
               (truthy gate \<and> (\<exists>r5. apply_affiliations (doc st4) a = Some (r5, 0))))"
      by (rule C)
  qed
  show ?thesis by (rule conjI[OF A conjI[OF B C']])
qed

text \<open>
  C2, as amended. Let the report hold a non-empty \<open>affiliation_corrections\<close> value and
  let \<open>st4\<close> be the state of \<open>apply_corrections\<close> before its affiliation block. When
  \<open>affiliation_correction_recommended\<close> is absent or truthy the orchestrator calls the
  applier on the record as it stands: it raises when the applier does, records one action
  and sets \<open>changed\<close> on a positive count, and on a zero count adds the note that no
  matches were found; the blocks that follow run from that state. When the flag is
  present and falsy the applier is not called: the blocks that follow run from
  \<open>st4\<close> with the note that names the flag, the record as it was. In the result of
  \<open>apply_corrections\<close> the note that names the flag is present exactly when the flag is
  falsy, and the note that no matches were found exactly when the flag is truthy and the
  applier counted zero.
\<close>

theorem affiliation_gate:
  assumes "effective_corrections report = Some c"
    and "after_descriptors r report = Some st4"
    and "dict_get report ''affiliation_corrections'' (JList []) = Some a" and "truthy a"
    and "dict_get report ''affiliation_correction_recommended'' (JBool True) = Some gate"
  shows "(truthy gate \<longrightarrow>
            (apply_affiliations (doc st4) a = None \<longrightarrow> apply_corrections r report = None) \<and>
            (\<forall>r5 n. apply_affiliations (doc st4) a = Some (r5, Suc n) \<longrightarrow>
               apply_corrections r report =
                 after_affiliations report c
                   (st4\<lparr>doc := r5,
                        actions := actions st4 @
                          [''Affiliations corrected ('' @ str_of_nat (Suc n) @ '')''],
                        changed := True\<rparr>)) \<and>
            (\<forall>r5. apply_affiliations (doc st4) a = Some (r5, 0) \<longrightarrow>
               apply_corrections r report =
                 after_affiliations report c
                   (st4\<lparr>doc := r5,
                        unapplied := unapplied st4 @
                          [''Affiliation corrections present but no matches found'']\<rparr>))) \<and>
         (\<not> truthy gate \<longrightarrow>
            apply_corrections r report =
              after_affiliations report c
                (st4\<lparr>unapplied := unapplied st4 @
                   [''Affiliation corrections present but affiliation_correction_recommended=false'']\<rparr>)) \<and>
         (\<forall>r' chg acts un. apply_corrections r report = Some (r', chg, acts, un) \<longrightarrow>
            ((''Affiliation corrections present but affiliation_correction_recommended=false''
               \<in> set un) = (\<not> truthy gate)) \<and>
            ((''Affiliation corrections present but no matches found'' \<in> set un) =
               (truthy gate \<and> (\<exists>r5. apply_affiliations (doc st4) a = Some (r5, 0)))))"
  using assms by (rule affiliation_gate_core)

theorem affiliation_gate_witness:
  "apply_corrections
     (JObj [(''metadata'', JObj [(''creators'',
              JList [JObj [(''affiliations'', JList [JObj [(''name'', JStr ''A'')]])]])])])
     (JObj [(''affiliation_corrections'',
        JList [JObj [(''old_affiliation'', JStr ''A''), (''recommended_affiliation'', JStr ''B'')]])])
   = Some (JObj [(''metadata'', JObj [(''creators'',
              JList [JObj [(''affiliations'', JList [JObj [(''name'', JStr ''B'')]])]])])],
           True, [''Affiliations corrected (1)''], []) \<and>
   apply_corrections
     (JObj [(''metadata'', JObj [(''creators'',
              JList [JObj [(''affiliations'', JList [JObj [(''name'', JStr ''A'')]])]])])])
     (JObj [(''affiliation_correction_recommended'', JBool False),
          (''affiliation_corrections'',
        JList [JObj [(''old_affiliation'', JStr ''A''), (''recommended_affiliation'', JStr ''B'')]])])
   = Some (JObj [(''metadata'', JObj [(''creators'',
              JList [JObj [(''affiliations'', JList [JObj [(''name'', JStr ''A'')]])]])])],
           False, [],
           [''Affiliation corrections present but affiliation_correction_recommended=false''])"
proof -
  let ?r = "JObj [(''metadata'', JObj [(''creators'',
              JList [JObj [(''affiliations'', JList [JObj [(''name'', JStr ''A'')]])]])])]"
  let ?r' = "JObj [(''metadata'', JObj [(''creators'',
              JList [JObj [(''affiliations'', JList [JObj [(''name'', JStr ''B'')]])]])])]"
  let ?a = "JList [JObj [(''old_affiliation'', JStr ''A''), (''recommended_affiliation'', JStr ''B'')]]"
  let ?rep = "JObj [(''affiliation_corrections'',
        JList [JObj [(''old_affiliation'', JStr ''A''), (''recommended_affiliation'', JStr ''B'')]])]"
  let ?repf = "JObj [(''affiliation_correction_recommended'', JBool False),
          (''affiliation_corrections'',
        JList [JObj [(''old_affiliation'', JStr ''A''), (''recommended_affiliation'', JStr ''B'')]])]"
  let ?st = "\<lparr>doc = ?r, changed = False, actions = [], unapplied = []\<rparr>"
  have n: "str_of_nat (Suc 0) = ''1''" by (simp add: str_of_nat.simps digit_char_def)
  have c: "effective_corrections ?rep = Some (JObj [])" "effective_corrections ?repf = Some (JObj [])"
    by (simp_all add: effective_corrections_def)
  have d: "after_descriptors ?r ?rep = Some ?st" "after_descriptors ?r ?repf = Some ?st"
    by (simp_all add: after_descriptors_def c title_step_def abstract_step_def date_step_def
        descriptor_step_def)
  have a: "dict_get ?rep ''affiliation_corrections'' (JList []) = Some ?a"
    "dict_get ?repf ''affiliation_corrections'' (JList []) = Some ?a" "truthy ?a"
    by simp_all
  have g: "dict_get ?rep ''affiliation_correction_recommended'' (JBool True) = Some (JBool True)"
    "dict_get ?repf ''affiliation_correction_recommended'' (JBool True) = Some (JBool False)"
    by simp_all
  have ap: "apply_affiliations (doc ?st) ?a = Some (?r', Suc 0)"
    by (simp add: apply_affiliations_def)
  have t1: "after_affiliations ?rep (JObj [])
      (?st\<lparr>doc := ?r', actions := actions ?st @
          [''Affiliations corrected ('' @ str_of_nat (Suc 0) @ '')''], changed := True\<rparr>)
      = Some (?r', True, [''Affiliations corrected (1)''], [])"
    by (simp add: after_affiliations_def org_step_def related_step_def n)
  have t2: "after_affiliations ?repf (JObj [])
      (?st\<lparr>unapplied := unapplied ?st @
          [''Affiliation corrections present but affiliation_correction_recommended=false'']\<rparr>)
      = Some (?r, False, [],
          [''Affiliation corrections present but affiliation_correction_recommended=false''])"
    by (simp add: after_affiliations_def org_step_def related_step_def)
  from affiliation_gate[OF c(1) d(1) a(1) a(3) g(1)] ap t1
  have 1: "apply_corrections ?r ?rep = Some (?r', True, [''Affiliations corrected (1)''], [])"
    by simp
  from affiliation_gate[OF c(2) d(2) a(2) a(3) g(2)] t2
  have 2: "apply_corrections ?r ?repf = Some (?r, False, [],
          [''Affiliation corrections present but affiliation_correction_recommended=false''])"
    by simp
  from 1 2 show ?thesis by (rule conjI)
qed

text \<open>
  C2 as stated fails: affiliation corrections have a gate flag. With
  \<open>affiliation_correction_recommended\<close> false the applier, which would rewrite one
  affiliation, is not called, and the note surfaced is not "no matches found".
\<close>

theorem affiliation_gate_counterexample:
  "apply_corrections
     (JObj [(''metadata'', JObj [(''creators'',
              JList [JObj [(''affiliations'', JList [JObj [(''name'', JStr ''A'')]])]])])])
     (JObj [(''affiliation_correction_recommended'', JBool False),
            (''affiliation_corrections'',
             JList [JObj [(''old_affiliation'', JStr ''A''),
                          (''recommended_affiliation'', JStr ''B'')]])])
   = Some (JObj [(''metadata'', JObj [(''creators'',
              JList [JObj [(''affiliations'', JList [JObj [(''name'', JStr ''A'')]])]])])],
           False, [],
           [''Affiliation corrections present but affiliation_correction_recommended=false'']) \<and>
   apply_affiliations
     (JObj [(''metadata'', JObj [(''creators'',
              JList [JObj [(''affiliations'', JList [JObj [(''name'', JStr ''A'')]])]])])])
     (JList [JObj [(''old_affiliation'', JStr ''A''), (''recommended_affiliation'', JStr ''B'')]])
   = Some (JObj [(''metadata'', JObj [(''creators'',
              JList [JObj [(''affiliations'', JList [JObj [(''name'', JStr ''B'')]])]])])], 1)"
  by (simp add: apply_corrections_def title_step_def abstract_step_def date_step_def
      descriptor_step_def affiliation_step_def org_step_def related_step_def
      apply_affiliations_def)

section \<open>Descriptor deletion: representation and matching\<close>

lemma str_lower_all:
  "map_option_list str_lower xs = Some ls \<Longrightarrow>
   ls = map (\<lambda>d. py_lower (text_of d)) xs \<and> (\<forall>d\<in>set xs. \<exists>s. d = JStr s)"
proof (induction xs arbitrary: ls)
  case Nil
  then show ?case by simp
next
  case (Cons x xs)
  then obtain y ys where y: "str_lower x = Some y" "map_option_list str_lower xs = Some ys"
    "ls = y # ys"
    by (auto split: bind_splits)
  from y(1) obtain s where "x = JStr s" "y = py_lower s" by (cases x) auto
  with Cons.IH[OF y(2)] y(3) show ?case by (auto simp: text_of_def)
qed

lemma filter_zip_map:
  "filter (\<lambda>(d, l). P l) (zip xs (map f xs)) = map (\<lambda>d. (d, f d)) (filter (\<lambda>d. P (f d)) xs)"
  by (induction xs) auto

lemma length_filter_same: "length (filter P xs) = length xs \<longleftrightarrow> (\<forall>x\<in>set xs. P x)"
proof (induction xs)
  case Nil
  then show ?case by simp
next
  case (Cons x xs)
  have "length (filter P xs) \<le> length xs" by simp
  then have "length (filter P xs) \<noteq> Suc (length xs)" by arith
  with Cons show ?case by auto
qed

lemma map_text_of_JStr [simp]: "map (\<lambda>d. case d of JStr s \<Rightarrow> s | _ \<Rightarrow> []) (map JStr xs) = xs"
  by (induction xs) auto

lemma delete_descriptors_spec:
  assumes "delete_descriptors r cf is_str dl deletions = Some (r', b)"
  shows "(\<forall>d\<in>set dl. \<exists>s. d = JStr s) \<and>
         b = (\<exists>d\<in>set dl. deleted deletions (text_of d)) \<and>
         (\<not> b \<longrightarrow> r' = r) \<and>
         (b \<longrightarrow> (\<exists>cf'. dict_set cf descriptors_key
                     (if is_str
                      then JStr (py_join ''; '' (map text_of
                             (filter (\<lambda>d. \<not> deleted deletions (text_of d)) dl)))
                      else JList (filter (\<lambda>d. \<not> deleted deletions (text_of d)) dl)) = Some cf' \<and>
                   dict_set r ''custom_fields'' cf' = Some r'))"
proof -
  from assms obtain ds L lowered where
    ds: "py_iter deletions = Some ds" and
    L: "map_option_list str_lower (filter truthy ds) = Some L" and
    lo: "map_option_list str_lower dl = Some lowered"
    by (auto simp: delete_descriptors_def split: bind_splits)
  from ds str_lower_all[OF L] have L': "L = lowered_deletions deletions"
    by (simp add: lowered_deletions_def iter_items_def)
  from str_lower_all[OF lo] have lo': "lowered = map (\<lambda>d. py_lower (text_of d)) dl"
    and strs: "\<forall>d\<in>set dl. \<exists>s. d = JStr s" by auto
  have filt: "filter (\<lambda>(d, l). l \<notin> set L) (zip dl lowered)
      = map (\<lambda>d. (d, py_lower (text_of d))) (filter (\<lambda>d. \<not> deleted deletions (text_of d)) dl)"
    unfolding lo' L' deleted_def by (rule filter_zip_map)
  have to: "(\<lambda>d. case d of JStr s \<Rightarrow> s | _ \<Rightarrow> []) = text_of"
    by (auto simp: text_of_def fun_eq_iff)
  from assms show ?thesis
    by (auto simp: delete_descriptors_def ds L lo to filt Let_def length_filter_same strs
        comp_def split: bind_splits if_splits)
qed

lemma py_split_nonempty: "py_split sep s \<noteq> []"
  by (induction s) (auto split: list.splits)

lemma py_split_append: "py_split sep (a @ sep # b) = py_split sep a @ py_split sep b"
proof (induction a)
  case Nil
  then show ?case by simp
next
  case (Cons c a)
  then show ?case using py_split_nonempty[of sep a]
    by (cases "py_split sep a") auto
qed

lemma py_split_single: "sep \<notin> set s \<Longrightarrow> py_split sep s = [s]"
  by (induction s) auto

text \<open>
  Reading a descriptor string: a comma and a semicolon both end an entry, and a piece
  with neither is one entry, stripped, unless it is blank.
\<close>

lemma parse_descriptors_delimiters:
  "parse_descriptors (a @ CHR '','' # b) = parse_descriptors a @ parse_descriptors b"
  "parse_descriptors (a @ CHR '';'' # b) = parse_descriptors a @ parse_descriptors b"
  "CHR '','' \<notin> set s \<Longrightarrow> CHR '';'' \<notin> set s \<Longrightarrow>
   parse_descriptors s = (if py_strip s = [] then [] else [py_strip s])"
proof -
  show "parse_descriptors (a @ CHR '','' # b) = parse_descriptors a @ parse_descriptors b"
    by (simp add: parse_descriptors_def py_replace_def py_split_append)
  show "parse_descriptors (a @ CHR '';'' # b) = parse_descriptors a @ parse_descriptors b"
    by (simp add: parse_descriptors_def py_replace_def py_split_append)
  assume "CHR '','' \<notin> set s" "CHR '';'' \<notin> set s"
  then have "py_replace CHR '';'' CHR '','' s = s"
    unfolding py_replace_def by (induction s) auto
  with \<open>CHR '','' \<notin> set s\<close>
  show "parse_descriptors s = (if py_strip s = [] then [] else [py_strip s])"
    by (simp add: parse_descriptors_def py_split_single)
qed

lemma descriptor_lookup:
  assumes "dict_get r ''custom_fields'' (JObj []) = Some cf"
    and "dict_get cf descriptors_key JNull = Some d"
  shows "custom_fields_ok r \<and>
         (descriptor_field r = Some d \<or> (descriptor_field r = None \<and> d = JNull))"
proof -
  from assms(1) obtain kvs where r: "r = JObj kvs" by (cases r) auto
  from assms(2) obtain m where cf: "cf = JObj m" by (cases cf) auto
  from assms r cf show ?thesis
    by (auto simp: custom_fields_ok_def descriptor_field_def top_field_def
        split: option.splits)
qed

lemma descriptor_lookup_ok:
  assumes "custom_fields_ok r"
  shows "\<exists>cf. dict_get r ''custom_fields'' (JObj []) = Some cf \<and>
           dict_get cf descriptors_key JNull =
             Some (case descriptor_field r of None \<Rightarrow> JNull | Some v \<Rightarrow> v)"
proof -
  from assms obtain kvs where r: "r = JObj kvs"
    by (cases r) (auto simp: custom_fields_ok_def)
  show ?thesis
  proof (cases "map_of kvs ''custom_fields''")
    case None
    with r show ?thesis by (simp add: descriptor_field_def top_field_def)
  next
    case (Some cf)
    with assms r obtain m where "cf = JObj m"
      by (cases cf) (auto simp: custom_fields_ok_def)
    with Some r show ?thesis
      by (auto simp: descriptor_field_def top_field_def split: option.splits)
  qed
qed

lemma descriptor_store:
  assumes "descriptor_field r = Some d"
    and "dict_get r ''custom_fields'' (JObj []) = Some cf"
    and "dict_set cf descriptors_key v = Some cf'"
    and "dict_set r ''custom_fields'' cf' = Some r'"
  shows "descriptor_field r' = Some v"
proof -
  from assms(2) obtain kvs where r: "r = JObj kvs" by (cases r) auto
  from assms(3) obtain m where cf: "cf = JObj m" by (cases cf) auto
  from assms r cf show ?thesis
    by (auto simp: descriptor_field_def top_field_def update_conv' split: option.splits)
qed

lemma not_deleted_falsy: "\<not> truthy deletions \<Longrightarrow> \<not> deleted deletions d"
  by (simp add: deleted_def lowered_deletions_def iter_items_falsy)

lemma parse_descriptors_Nil [simp]: "parse_descriptors [] = []"
  by (simp add: parse_descriptors_def py_replace_def py_strip_def)

lemma descriptor_deletion_core:
  "(apply_descriptor_deletions r deletions = Some (r', b) \<longrightarrow>
      (\<forall>s. descriptor_field r = Some (JStr s) \<longrightarrow>
         b = (\<exists>d\<in>set (parse_descriptors s). deleted deletions d) \<and>
         descriptor_field r' =
           Some (JStr (if b then py_join ''; ''
                                  (filter (\<lambda>d. \<not> deleted deletions d) (parse_descriptors s))
                       else s))) \<and>
      (\<forall>xs. descriptor_field r = Some (JList xs) \<longrightarrow>
         b = (\<exists>d\<in>set xs. deleted deletions (text_of d)) \<and>
         descriptor_field r' =
           Some (JList (filter (\<lambda>d. \<not> deleted deletions (text_of d)) xs))) \<and>
      (\<not> b \<longrightarrow> r' = r)) \<and>
   (custom_fields_ok r \<and>
    (case descriptor_field r of None \<Rightarrow> True | Some v \<Rightarrow> \<not> truthy v \<or> unrecognized v) \<longrightarrow>
      apply_descriptor_deletions r deletions = Some (r, False))"
proof (rule conjI; rule impI)
  assume ok: "custom_fields_ok r \<and>
    (case descriptor_field r of None \<Rightarrow> True | Some v \<Rightarrow> \<not> truthy v \<or> unrecognized v)"
  from descriptor_lookup_ok[of r] ok obtain cf where
    cf: "dict_get r ''custom_fields'' (JObj []) = Some cf"
      "dict_get cf descriptors_key JNull =
         Some (case descriptor_field r of None \<Rightarrow> JNull | Some v \<Rightarrow> v)"
    by blast
  show "apply_descriptor_deletions r deletions = Some (r, False)"
  proof (cases "descriptor_field r")
    case None
    with cf show ?thesis by (simp add: apply_descriptor_deletions_def)
  next
    case (Some v)
    with ok have "\<not> truthy v \<or> unrecognized v" by simp
    with cf Some show ?thesis
      by (cases v) (auto simp: apply_descriptor_deletions_def unrecognized_def)
  qed
next
  assume run: "apply_descriptor_deletions r deletions = Some (r', b)"
  show "(\<forall>s. descriptor_field r = Some (JStr s) \<longrightarrow>
         b = (\<exists>d\<in>set (parse_descriptors s). deleted deletions d) \<and>
         descriptor_field r' =
           Some (JStr (if b then py_join ''; ''
                                  (filter (\<lambda>d. \<not> deleted deletions d) (parse_descriptors s))
                       else s))) \<and>
      (\<forall>xs. descriptor_field r = Some (JList xs) \<longrightarrow>
         b = (\<exists>d\<in>set xs. deleted deletions (text_of d)) \<and>
         descriptor_field r' =
           Some (JList (filter (\<lambda>d. \<not> deleted deletions (text_of d)) xs))) \<and>
      (\<not> b \<longrightarrow> r' = r)"
  proof (cases "truthy deletions")
    case False
    with run have "r' = r" "\<not> b" by (auto simp: apply_descriptor_deletions_def)
    with False show ?thesis by (auto simp: not_deleted_falsy)
  next
    case True
    with run obtain cf d where
      cf: "dict_get r ''custom_fields'' (JObj []) = Some cf" and
      d: "dict_get cf descriptors_key JNull = Some d"
      by (auto simp: apply_descriptor_deletions_def split: bind_splits)
    note look = descriptor_lookup[OF cf d]
    show ?thesis
    proof (cases "truthy d")
      case False
      with run True cf d have same: "r' = r" "\<not> b"
        by (auto simp: apply_descriptor_deletions_def)
      from False look have "\<forall>s. descriptor_field r = Some (JStr s) \<longrightarrow> s = []"
        "\<forall>xs. descriptor_field r = Some (JList xs) \<longrightarrow> xs = []"
        by auto
      with same show ?thesis by auto
    next
      case td: True
      then have fld: "descriptor_field r = Some d" using look by auto
      show ?thesis
      proof (cases d)
        case (JStr s)
        with run True cf d td have
          dd: "delete_descriptors r cf True (map JStr (parse_descriptors s)) deletions = Some (r', b)"
          by (simp add: apply_descriptor_deletions_def)
        note spec = delete_descriptors_spec[OF dd]
        have fm: "map text_of (filter (\<lambda>d. \<not> deleted deletions (text_of d))
                    (map JStr (parse_descriptors s)))
                  = filter (\<lambda>d. \<not> deleted deletions d) (parse_descriptors s)"
          by (simp add: filter_map comp_def text_of_def)
        from spec have b: "b = (\<exists>d\<in>set (parse_descriptors s). deleted deletions d)"
          by (auto simp: text_of_def)
        have "descriptor_field r' =
           Some (JStr (if b then py_join ''; ''
                                  (filter (\<lambda>d. \<not> deleted deletions d) (parse_descriptors s))
                       else s))"
        proof (cases b)
          case True
          with spec obtain cf' where
            "dict_set cf descriptors_key (JStr (py_join ''; ''
               (filter (\<lambda>d. \<not> deleted deletions d) (parse_descriptors s)))) = Some cf'"
            "dict_set r ''custom_fields'' cf' = Some r'"
            unfolding fm by auto
          from descriptor_store[OF fld cf this] True show ?thesis by simp
        next
          case False
          with spec fld JStr show ?thesis by simp
        qed
        with b spec fld JStr show ?thesis by auto
      next
        case (JList xs)
        with run True cf d td have
          dd: "delete_descriptors r cf False xs deletions = Some (r', b)"
          by (simp add: apply_descriptor_deletions_def)
        note spec = delete_descriptors_spec[OF dd]
        from spec have b: "b = (\<exists>d\<in>set xs. deleted deletions (text_of d))" by simp
        have "descriptor_field r' =
           Some (JList (filter (\<lambda>d. \<not> deleted deletions (text_of d)) xs))"
        proof (cases b)
          case True
          with spec obtain cf' where
            "dict_set cf descriptors_key
               (JList (filter (\<lambda>d. \<not> deleted deletions (text_of d)) xs)) = Some cf'"
            "dict_set r ''custom_fields'' cf' = Some r'"
            by auto
          from descriptor_store[OF fld cf this] show ?thesis .
        next
          case False
          with b have "filter (\<lambda>d. \<not> deleted deletions (text_of d)) xs = xs"
            by (auto simp: filter_id_conv)
          with False spec fld JList show ?thesis by simp
        qed
        with b spec fld JList show ?thesis by auto
      qed (use run True cf d td fld in \<open>auto simp: apply_descriptor_deletions_def\<close>)
    qed
  qed
qed

lemma py_lower_table:
  "py_lower capitals = smalls"
  "c \<notin> set capitals \<Longrightarrow> py_lower [c] = [c]"
  "py_lower (s @ t) = py_lower s @ py_lower t"
proof -
  show "py_lower capitals = smalls"
    by (simp add: py_lower_def lower_char_def capitals_def smalls_def)
  have "map_of (zip capitals smalls) c = None" if "c \<notin> set capitals"
    using that by (simp add: map_of_eq_None_iff capitals_def smalls_def)
  then show "c \<notin> set capitals \<Longrightarrow> py_lower [c] = [c]"
    by (simp add: py_lower_def lower_char_def)
  show "py_lower (s @ t) = py_lower s @ py_lower t" by (simp add: py_lower_def)
qed

text \<open>
  C7. Whenever \<open>apply_descriptor_deletions\<close> returns: a descriptor field stored as a
  string is a string afterwards, the entries that are kept joined with \<open>; \<close> when
  something was deleted and the stored string itself otherwise; a field stored as a
  list is the list of the entries that are kept; an entry is deleted exactly when its
  lower-case form is the lower-case form of one of the deletions; the result is false,
  and the record unchanged, exactly when no entry matches. On a record whose
  \<open>custom_fields\<close> is absent or a dict, an absent, empty or unrecognized descriptor
  field makes the call return false with the record unchanged, for any deletions.
  On read, a comma and a semicolon both separate entries, and a piece holding neither is
  one entry, stripped of surrounding whitespace, unless it is blank. Lower-casing works
  character by character: it maps each capital letter to its small letter and leaves
  every other character alone, so the match ignores case and nothing else.
\<close>

theorem descriptor_deletion_contract:
  "(apply_descriptor_deletions r deletions = Some (r', b) \<longrightarrow>
      (\<forall>s. descriptor_field r = Some (JStr s) \<longrightarrow>
         b = (\<exists>d\<in>set (parse_descriptors s). deleted deletions d) \<and>
         descriptor_field r' =
           Some (JStr (if b then py_join ''; ''
                                  (filter (\<lambda>d. \<not> deleted deletions d) (parse_descriptors s))
                       else s))) \<and>
      (\<forall>xs. descriptor_field r = Some (JList xs) \<longrightarrow>
         b = (\<exists>d\<in>set xs. deleted deletions (text_of d)) \<and>
         descriptor_field r' =
           Some (JList (filter (\<lambda>d. \<not> deleted deletions (text_of d)) xs))) \<and>
      (\<not> b \<longrightarrow> r' = r)) \<and>
   (custom_fields_ok r \<and>
    (case descriptor_field r of None \<Rightarrow> True | Some v \<Rightarrow> \<not> truthy v \<or> unrecognized v) \<longrightarrow>
      apply_descriptor_deletions r deletions = Some (r, False)) \<and>
   (\<forall>x y. parse_descriptors (x @ CHR '','' # y) = parse_descriptors x @ parse_descriptors y) \<and>
   (\<forall>x y. parse_descriptors (x @ CHR '';'' # y) = parse_descriptors x @ parse_descriptors y) \<and>
   (\<forall>s. CHR '','' \<notin> set s \<and> CHR '';'' \<notin> set s \<longrightarrow>
      parse_descriptors s = (if py_strip s = [] then [] else [py_strip s])) \<and>
   py_lower capitals = smalls \<and>
   (\<forall>c. c \<notin> set capitals \<longrightarrow> py_lower [c] = [c]) \<and>
   (\<forall>s t. py_lower (s @ t) = py_lower s @ py_lower t)"
  using descriptor_deletion_core[of r deletions r' b] parse_descriptors_delimiters
    py_lower_table
  by blast

theorem descriptor_deletion_contract_witness:
  "apply_descriptor_deletions
     (JObj [(''custom_fields'', JObj [(''iaea:descriptors_cai_text'', JStr ''Alpha, beta ;GAMMA'')])])
     (JList [JStr ''BETA''])
   = Some (JObj [(''custom_fields'', JObj [(''iaea:descriptors_cai_text'', JStr ''Alpha; GAMMA'')])],
           True) \<and>
   descriptor_field
     (JObj [(''custom_fields'', JObj [(''iaea:descriptors_cai_text'', JStr ''Alpha; GAMMA'')])])
   = Some (JStr (py_join ''; '' (filter (\<lambda>d. \<not> deleted (JList [JStr ''BETA'']) d)
                                   (parse_descriptors ''Alpha, beta ;GAMMA'')))) \<and>
   apply_descriptor_deletions
     (JObj [(''custom_fields'', JObj [(''iaea:descriptors_cai_text'', JInt 5)])])
     (JList [JStr ''BETA''])
   = Some (JObj [(''custom_fields'', JObj [(''iaea:descriptors_cai_text'', JInt 5)])], False) \<and>
   apply_descriptor_deletions
     (JObj [(''custom_fields'', JObj [(''iaea:descriptors_cai_text'',
        JStr ([CHR 0xA0, CHR 0xC9] @ ''a'' @ [CHR 0x85] @ '';b''))])])
     (JList [JStr ([CHR 0xE9] @ ''A'')])
   = Some (JObj [(''custom_fields'', JObj [(''iaea:descriptors_cai_text'', JStr ''b'')])],
           True)"
proof -
  let ?r = "JObj [(''custom_fields'', JObj [(''iaea:descriptors_cai_text'', JStr ''Alpha, beta ;GAMMA'')])]"
  let ?r' = "JObj [(''custom_fields'', JObj [(''iaea:descriptors_cai_text'', JStr ''Alpha; GAMMA'')])]"
  let ?u = "JObj [(''custom_fields'', JObj [(''iaea:descriptors_cai_text'', JInt 5)])]"
  let ?d = "JList [JStr ''BETA'']"
  have p: "parse_descriptors ''Alpha, beta ;GAMMA'' = [''Alpha'', ''beta'', ''GAMMA'']"
    by (simp add: parse_descriptors_def py_replace_def py_strip_def is_space_def)
  have run: "apply_descriptor_deletions ?r ?d = Some (?r', True)"
    by (simp add: apply_descriptor_deletions_def delete_descriptors_def descriptors_key_def p
        py_lower_def lower_char_def capitals_def smalls_def)
  have f: "descriptor_field ?r = Some (JStr ''Alpha, beta ;GAMMA'')"
    by (simp add: descriptor_field_def top_field_def descriptors_key_def)
  have u: "custom_fields_ok ?u" "descriptor_field ?u = Some (JInt 5)" "unrecognized (JInt 5)"
    by (simp_all add: custom_fields_ok_def descriptor_field_def top_field_def
        descriptors_key_def unrecognized_def)
  from descriptor_deletion_contract[of ?r ?d ?r' True] run f
  have "descriptor_field ?r' = Some (JStr (py_join ''; ''
          (filter (\<lambda>d. \<not> deleted ?d d) (parse_descriptors ''Alpha, beta ;GAMMA''))))"
    by simp
  moreover from descriptor_deletion_contract[of ?u ?d] u
  have "apply_descriptor_deletions ?u ?d = Some (?u, False)" by simp
  moreover have "apply_descriptor_deletions
     (JObj [(''custom_fields'', JObj [(''iaea:descriptors_cai_text'',
        JStr ([CHR 0xA0, CHR 0xC9] @ ''a'' @ [CHR 0x85] @ '';b''))])])
     (JList [JStr ([CHR 0xE9] @ ''A'')])
   = Some (JObj [(''custom_fields'', JObj [(''iaea:descriptors_cai_text'', JStr ''b'')])],
           True)"
  proof -
    have q: "parse_descriptors ([CHR 0xA0, CHR 0xC9] @ ''a'' @ [CHR 0x85] @ '';b'')
        = [[CHR 0xC9] @ ''a'', ''b'']"
      by (simp add: parse_descriptors_def py_replace_def py_strip_def is_space_def)
    show ?thesis
      by (simp add: apply_descriptor_deletions_def delete_descriptors_def descriptors_key_def
          q[simplified] py_lower_def lower_char_def capitals_def smalls_def)
  qed
  ultimately show ?thesis using run by simp
qed

section \<open>What each applier writes\<close>

lemma filter_update_other:
  "\<not> P k \<Longrightarrow> filter (\<lambda>kv. P (fst kv)) (AList.update k v al) = filter (\<lambda>kv. P (fst kv)) al"
  by (induction al) auto

lemma map_update_same:
  "map_of al k = Some v0 \<Longrightarrow> G (k, v) = G (k, v0) \<Longrightarrow>
   map G (AList.update k v al) = map G al"
  by (induction al) (auto split: if_splits)

lemma filter_map_update_same:
  "map_of al k = Some v0 \<Longrightarrow> G (k, v) = G (k, v0) \<Longrightarrow>
   map G (filter (\<lambda>kv. P (fst kv)) (AList.update k v al)) = map G (filter (\<lambda>kv. P (fst kv)) al)"
  by (induction al) (auto split: if_splits)

lemma delete_as_filter: "AList.delete k al = filter (\<lambda>kv. fst kv \<noteq> k) al"
  by (induction al) auto

lemma overwrite_shape:
  assumes "overwrite k r c = Some (r', b)"
  shows "(\<not> b \<and> r' = r) \<or> (b \<and> truthy c \<and> metadata_ok r \<and> r' = put_meta r k c)"
proof (cases "truthy c")
  case False
  with assms show ?thesis by (simp add: overwrite_def)
next
  case True
  from assms True obtain kvs where r: "r = JObj kvs"
    by (cases r) (auto simp: overwrite_def)
  show ?thesis
  proof (cases "map_of kvs ''metadata''")
    case None
    with assms True r show ?thesis
      using py_eq_empty_str[of c]
      by (auto simp: overwrite_def put_meta_def meta_of_def top_field_def metadata_ok_def
          split: if_splits)
  next
    case (Some m)
    with assms True r obtain mkvs where m: "m = JObj mkvs"
      by (cases m) (auto simp: overwrite_def)
    with assms True r Some show ?thesis
      by (auto simp: overwrite_def put_meta_def meta_of_def top_field_def metadata_ok_def
          split: if_splits option.splits)
  qed
qed

lemma related_shape:
  assumes "add_related_identifiers r ids = Some (r', n)"
  shows "r' = r \<or> (metadata_ok r \<and> (\<exists>e. r' = put_meta r ''related_identifiers'' e))"
proof (cases "truthy ids")
  case False
  with assms show ?thesis by (simp add: add_related_identifiers_def)
next
  case True
  with assms obtain m r1 e m1 e' m2 where
    sd1: "setdefault r ''metadata'' (JObj []) = Some (m, r1)" and
    sd2: "setdefault m ''related_identifiers'' (JList []) = Some (e, m1)" and
    ds1: "dict_set m1 ''related_identifiers'' e' = Some m2" and
    ds2: "dict_set r1 ''metadata'' m2 = Some r'"
    by (auto simp: add_related_identifiers_def split: bind_splits)
  from sd1 obtain kvs where r: "r = JObj kvs" by (cases r) auto
  from sd2 obtain mkvs where m: "m = JObj mkvs" by (cases m) auto
  have "metadata_ok r \<and> r' = put_meta r ''related_identifiers'' e'"
  proof (cases "map_of kvs ''metadata''")
    case None
    with sd1 sd2 ds1 ds2 r m show ?thesis
      by (auto simp: put_meta_def meta_of_def top_field_def metadata_ok_def
          split: option.splits)
  next
    case (Some a)
    with sd1 sd2 ds1 ds2 r m show ?thesis
      by (auto simp: put_meta_def meta_of_def top_field_def metadata_ok_def
          split: option.splits)
  qed
  then show ?thesis by blast
qed

lemma descriptor_shape:
  assumes "apply_descriptor_deletions r deletions = Some (r', b)"
  shows "(\<not> b \<and> r' = r) \<or>
         (b \<and> custom_fields_ok r \<and> descriptor_field r \<noteq> None \<and>
          (\<exists>v. r' = put_descriptors r v))"
proof (cases b)
  case False
  with descriptor_deletion_core[of r deletions r' b] assms show ?thesis by simp
next
  case True
  with assms obtain cf d where
    cf: "dict_get r ''custom_fields'' (JObj []) = Some cf" and
    d: "dict_get cf descriptors_key JNull = Some d" and td: "truthy d"
    and tdel: "truthy deletions"
    by (auto simp: apply_descriptor_deletions_def split: bind_splits if_splits)
  from descriptor_lookup[OF cf d] td have ok: "custom_fields_ok r"
    and fld: "descriptor_field r = Some d" by auto
  from assms True cf d td tdel obtain is_str dl where
    dd: "delete_descriptors r cf is_str dl deletions = Some (r', True)"
    by (cases d) (auto simp: apply_descriptor_deletions_def)
  from delete_descriptors_spec[OF dd] obtain v cf' where
    st: "dict_set cf descriptors_key v = Some cf'" "dict_set r ''custom_fields'' cf' = Some r'"
    by auto
  from cf obtain kvs where r: "r = JObj kvs" by (cases r) auto
  from d obtain m where m: "cf = JObj m" by (cases cf) auto
  from fld r m cf have "custom_of r = m"
    by (auto simp: custom_of_def descriptor_field_def top_field_def split: option.splits)
  with st r m have "r' = put_descriptors r v"
    by (auto simp: put_descriptors_def)
  with True ok fld show ?thesis by blast
qed

section \<open>The loops compute the pure rewriting\<close>

lemma aff_correction_loop_generic:
  "aff_correction_loop cs creators a =
   correction_loop ''old_affiliation'' ''recommended_affiliation'' aff_creator_loop cs creators a"
  by (induction cs arbitrary: creators a) (auto split: bind_splits intro!: Option.bind_cong)

lemma org_correction_loop_generic:
  "org_correction_loop cs creators a =
   correction_loop ''old_organizational_author'' ''recommended_organizational_author''
     org_creator_loop cs creators a"
  by (induction cs arbitrary: creators a) (auto split: bind_splits intro!: Option.bind_cong)

lemma dict_get_obj:
  "dict_get c k d = (if is_obj c then Some (case top_field c k of None \<Rightarrow> d | Some v \<Rightarrow> v) else None)"
  by (cases c) (auto simp: top_field_def)

lemma affiliation_loop_pure:
  "affiliation_loop old new items =
   (if list_all is_obj items
    then Some (map (rw_affiliation old new) items,
               length (filter (\<lambda>x. py_eq x old) (map (\<lambda>a. get_or_empty a ''name'') items)))
    else None)"
proof (induction items)
  case Nil
  then show ?case by simp
next
  case (Cons a items)
  show ?case
  proof (cases a)
    case (JObj kvs)
    then show ?thesis using Cons
      by (auto simp: rw_affiliation_def get_or_empty_def top_field_def split: option.splits)
  qed (simp_all)
qed

lemma py_iter_iter_items: "py_iter v = Some xs \<Longrightarrow> iter_items v = xs"
  by (simp add: iter_items_def)

lemma aff_creator_loop_pure:
  "aff_creator_loop old new cs =
   (if list_all aff_creator_ok cs
    then Some (map (rw_aff_creator old new) cs, sum_list (map (aff_hits old) cs))
    else None)"
proof (induction cs)
  case Nil
  then show ?case by simp
next
  case (Cons c cs)
  show ?case
  proof (cases "is_obj c")
    case False
    then show ?thesis by (simp add: dict_get_obj aff_creator_ok_def)
  next
    case True
    then have g: "dict_get c ''affiliations'' (JList []) = Some (affiliations_value c)"
      by (simp add: dict_get_obj affiliations_value_def)
    show ?thesis
    proof (cases "py_iter (affiliations_value c)")
      case None
      then show ?thesis by (simp add: g aff_creator_ok_def)
    next
      case (Some items)
      have ok: "aff_creator_ok c = list_all is_obj items"
        using True Some by (simp add: aff_creator_ok_def py_iter_iter_items)
      have rw: "rw_aff_creator old new c =
          dict_replace c ''affiliations''
            (replace_items (affiliations_value c) (map (rw_affiliation old new) items))"
        using Some by (simp add: rw_aff_creator_def py_iter_iter_items)
      have hits: "aff_hits old c =
          length (filter (\<lambda>x. py_eq x old) (map (\<lambda>a. get_or_empty a ''name'') items))"
        using Some by (simp add: aff_hits_def aff_names_def py_iter_iter_items)
      show ?thesis
        by (simp add: g Some affiliation_loop_pure Cons ok rw hits del: filter_map)
    qed
  qed
qed

lemma org_creator_loop_pure:
  "org_creator_loop old new cs =
   (if list_all org_creator_ok cs
    then Some (map (rw_org_creator old new) cs, sum_list (map (org_hits old) cs))
    else None)"
proof (induction cs)
  case Nil
  then show ?case by simp
next
  case (Cons c cs)
  show ?case
  proof (cases "is_obj c")
    case False
    then show ?thesis by (simp add: dict_get_obj org_creator_ok_def)
  next
    case True
    then have g: "dict_get c ''person_or_org'' (JObj []) = Some (person_value c)"
      by (simp add: dict_get_obj person_value_def)
    show ?thesis
    proof (cases "person_value c")
      case (JObj kvs)
      have ok: "org_creator_ok c" using True JObj by (simp add: org_creator_ok_def)
      have hits: "org_hits old c =
          (if py_eq (case map_of kvs ''type'' of None \<Rightarrow> JNull | Some v \<Rightarrow> v)
                (JStr ''organizational'') \<and>
              py_eq (case map_of kvs ''name'' of None \<Rightarrow> JNull | Some v \<Rightarrow> v) old
           then 1 else 0)"
        using JObj by (simp add: org_hits_def org_names_def top_field_def)
      have rw: "rw_org_creator old new c =
          dict_replace c ''person_or_org''
            (if py_eq (case map_of kvs ''type'' of None \<Rightarrow> JNull | Some v \<Rightarrow> v)
                  (JStr ''organizational'') \<and>
                py_eq (case map_of kvs ''name'' of None \<Rightarrow> JNull | Some v \<Rightarrow> v) old
             then JObj (AList.update ''name'' new kvs) else JObj kvs)"
        using JObj by (simp add: rw_org_creator_def hits)
      show ?thesis
        by (simp add: g JObj Cons ok rw hits)
    qed (simp_all add: g org_creator_ok_def)
  qed
qed

lemma iter_replace_items:
  "py_iter creators = Some items \<Longrightarrow> list_all is_obj items \<Longrightarrow>
   py_iter (replace_items creators (map f items)) = Some (map f items)"
  by (cases creators) (auto simp: list_all_iff)

lemma correction_loop_pure:
  assumes inner: "\<And>old new items. inner old new items =
      (if list_all ok items
       then Some (map (rw old new) items, sum_list (map (hits old) items)) else None)"
    and ok_rw: "\<And>old new c. ok c \<Longrightarrow> ok (rw old new c)"
    and ok_obj: "\<And>c. ok c \<Longrightarrow> is_obj c"
  shows "correction_loop ko kn inner cs creators a =
    (if list_all is_obj cs \<and>
        (valid_pairs ko kn cs \<noteq> [] \<longrightarrow>
           py_iter creators \<noteq> None \<and> list_all ok (iter_items creators))
     then Some (rewrite_all rw (valid_pairs ko kn cs) creators,
                a + count_all hits rw (valid_pairs ko kn cs) creators)
     else None)"
proof (induction cs arbitrary: creators a)
  case Nil
  then show ?case by (simp add: valid_pairs_def)
next
  case (Cons c cs)
  show ?case
  proof (cases "is_obj c")
    case False
    then show ?thesis by (simp add: dict_get_obj)
  next
    case True
    let ?old = "get_or_empty c ko" and ?new = "get_or_empty c kn"
    have g: "dict_get c ko (JStr []) = Some ?old" "dict_get c kn (JStr []) = Some ?new"
      using True by (simp_all add: dict_get_obj get_or_empty_def)
    show ?thesis
    proof (cases "truthy ?old \<and> truthy ?new")
      case False
      then have "valid_pairs ko kn (c # cs) = valid_pairs ko kn cs"
        by (auto simp: valid_pairs_def)
      with False True g Cons show ?thesis by auto
    next
      case valid: True
      then have vp: "valid_pairs ko kn (c # cs) = (?old, ?new) # valid_pairs ko kn cs"
        by (simp add: valid_pairs_def)
      show ?thesis
      proof (cases "py_iter creators")
        case None
        with valid True g vp show ?thesis by simp
      next
        case (Some items)
        note it = py_iter_iter_items[OF Some]
        show ?thesis
        proof (cases "list_all ok items")
          case False
          then have "inner ?old ?new items = None" by (subst inner) simp
          with False valid True g vp Some it show ?thesis by simp
        next
          case ok: True
          then have obj: "list_all is_obj items" by (auto simp: list_all_iff ok_obj)
          have it': "py_iter (replace_items creators (map (rw ?old ?new) items))
                = Some (map (rw ?old ?new) items)"
            by (rule iter_replace_items[OF Some obj])
          have ok': "list_all ok (map (rw ?old ?new) items)"
            using ok by (auto simp: list_all_iff ok_rw)
          have run: "inner ?old ?new items =
              Some (map (rw ?old ?new) items, sum_list (map (hits ?old) items))"
            using ok by (subst inner) simp
          show ?thesis
            using valid True g vp Some it ok it' ok' py_iter_iter_items[OF it']
            by (simp add: run Cons)
        qed
      qed
    qed
  qed
qed

lemma aff_ok_rw: "aff_creator_ok c \<Longrightarrow> aff_creator_ok (rw_aff_creator old new c)"
proof -
  assume ok: "aff_creator_ok c"
  then obtain kvs where c: "c = JObj kvs" by (cases c) (auto simp: aff_creator_ok_def)
  show ?thesis
  proof (cases "map_of kvs ''affiliations''")
    case None
    with ok c show ?thesis
      by (simp add: rw_aff_creator_def)
  next
    case (Some v)
    with c have av: "affiliations_value c = v" by (simp add: affiliations_value_def top_field_def)
    from ok av obtain items where it: "py_iter v = Some items" and obj: "list_all is_obj items"
      by (auto simp: aff_creator_ok_def iter_items_def)
    have obj': "list_all is_obj (map (rw_affiliation old new) items)"
      using obj by (auto simp: list_all_iff rw_affiliation_def split: json.splits)
    from iter_replace_items[OF it obj, of "rw_affiliation old new"]
    have "affiliations_value (rw_aff_creator old new c)
        = replace_items v (map (rw_affiliation old new) items)"
      using c Some av it
      by (simp add: rw_aff_creator_def affiliations_value_def top_field_def update_conv'
          py_iter_iter_items)
    with iter_replace_items[OF it obj, of "rw_affiliation old new"] obj' c Some
    show ?thesis
      by (simp add: aff_creator_ok_def py_iter_iter_items rw_aff_creator_def)
  qed
qed

lemma aff_ok_obj: "aff_creator_ok c \<Longrightarrow> is_obj c"
  by (simp add: aff_creator_ok_def)

lemma org_ok_rw: "org_creator_ok c \<Longrightarrow> org_creator_ok (rw_org_creator old new c)"
proof -
  assume ok: "org_creator_ok c"
  then obtain kvs where c: "c = JObj kvs" by (cases c) (auto simp: org_creator_ok_def)
  from ok obtain p where p: "person_value c = JObj p"
    by (cases "person_value c") (auto simp: org_creator_ok_def)
  show ?thesis
  proof (cases "map_of kvs ''person_or_org''")
    case None
    with ok c show ?thesis by (simp add: rw_org_creator_def)
  next
    case (Some v)
    with c p show ?thesis
      by (auto simp: org_creator_ok_def rw_org_creator_def person_value_def top_field_def
          update_conv')
  qed
qed

lemma org_ok_obj: "org_creator_ok c \<Longrightarrow> is_obj c"
  by (simp add: org_creator_ok_def)

lemma aff_loop_pure:
  "aff_correction_loop cs creators a =
    (if list_all is_obj cs \<and>
        (valid_pairs ''old_affiliation'' ''recommended_affiliation'' cs \<noteq> [] \<longrightarrow>
           py_iter creators \<noteq> None \<and> list_all aff_creator_ok (iter_items creators))
     then Some (rewrite_all rw_aff_creator
                  (valid_pairs ''old_affiliation'' ''recommended_affiliation'' cs) creators,
                a + count_all aff_hits rw_aff_creator
                  (valid_pairs ''old_affiliation'' ''recommended_affiliation'' cs) creators)
     else None)"
  unfolding aff_correction_loop_generic
  by (rule correction_loop_pure[where ok = aff_creator_ok])
    (simp_all add: aff_creator_loop_pure aff_ok_rw aff_ok_obj)

lemma org_loop_pure:
  "org_correction_loop cs creators a =
    (if list_all is_obj cs \<and>
        (valid_pairs ''old_organizational_author'' ''recommended_organizational_author'' cs \<noteq> [] \<longrightarrow>
           py_iter creators \<noteq> None \<and> list_all org_creator_ok (iter_items creators))
     then Some (rewrite_all rw_org_creator
                  (valid_pairs ''old_organizational_author''
                     ''recommended_organizational_author'' cs) creators,
                a + count_all org_hits rw_org_creator
                  (valid_pairs ''old_organizational_author''
                     ''recommended_organizational_author'' cs) creators)
     else None)"
  unfolding org_correction_loop_generic
  by (rule correction_loop_pure[where ok = org_creator_ok])
    (simp_all add: org_creator_loop_pure org_ok_rw org_ok_obj)

lemma metadata_gets:
  "metadata_ok r \<Longrightarrow>
   dict_get r ''metadata'' (JObj []) = Some (JObj (meta_of r)) \<and>
   (case map_of (meta_of r) ''creators'' of None \<Rightarrow> JList [] | Some v \<Rightarrow> v) = creators_value r"
  by (cases r)
    (auto simp: metadata_ok_def meta_of_def top_field_def creators_value_def metadata_field_def
      split: option.splits json.splits)

lemma apply_affiliations_pure:
  "apply_affiliations r cs =
   (if \<not> truthy cs then Some (r, 0)
    else if metadata_ok r \<and> py_iter cs \<noteq> None \<and> list_all is_obj (iter_items cs) \<and>
            loop_ok aff_creator_ok (aff_pairs cs) (creators_value r)
    then Some (store_creators r (rewrite_all rw_aff_creator (aff_pairs cs) (creators_value r)),
               count_all aff_hits rw_aff_creator (aff_pairs cs) (creators_value r))
    else None)"
proof (cases "metadata_ok r")
  case False
  then show ?thesis
    by (cases r)
      (auto simp: apply_affiliations_def metadata_ok_def split: option.splits json.splits)
next
  case True
  note g = metadata_gets[OF True]
  show ?thesis
  proof (cases "py_iter cs")
    case None
    then show ?thesis by (simp add: apply_affiliations_def g)
  next
    case (Some items)
    then show ?thesis
      using True py_iter_iter_items[OF Some]
      by (auto simp: apply_affiliations_def g aff_loop_pure loop_ok_def aff_pairs_def
          store_creators_def)
  qed
qed

lemma apply_org_authors_pure:
  "apply_org_authors r cs =
   (if \<not> truthy cs then Some (r, 0)
    else if metadata_ok r \<and> py_iter cs \<noteq> None \<and> list_all is_obj (iter_items cs) \<and>
            loop_ok org_creator_ok (org_pairs cs) (creators_value r)
    then Some (store_creators r (rewrite_all rw_org_creator (org_pairs cs) (creators_value r)),
               count_all org_hits rw_org_creator (org_pairs cs) (creators_value r))
    else None)"
proof (cases "metadata_ok r")
  case False
  then show ?thesis
    by (cases r)
      (auto simp: apply_org_authors_def metadata_ok_def split: option.splits json.splits)
next
  case True
  note g = metadata_gets[OF True]
  show ?thesis
  proof (cases "py_iter cs")
    case None
    then show ?thesis by (simp add: apply_org_authors_def g)
  next
    case (Some items)
    then show ?thesis
      using True py_iter_iter_items[OF Some]
      by (auto simp: apply_org_authors_def g org_loop_pure loop_ok_def org_pairs_def
          store_creators_def)
  qed
qed

section \<open>The skeleton is invariant\<close>

lemma name_skel_update: "name_skel (JObj (AList.update ''name'' n kvs)) = name_skel (JObj kvs)"
  by (simp add: delete_update_same)

lemma rw_affiliation_skel: "name_skel (rw_affiliation old new a) = name_skel a"
  by (cases a) (auto simp: rw_affiliation_def delete_update_same)

lemma creator_skel_replace:
  assumes "\<And>v0. top_field c k = Some v0 \<Longrightarrow> creator_entry_skel (k, v') = creator_entry_skel (k, v0)"
  shows "creator_skel (dict_replace c k v') = creator_skel c"
proof (cases c)
  case (JObj kvs)
  show ?thesis
  proof (cases "map_of kvs k")
    case None
    with JObj show ?thesis by simp
  next
    case (Some v0)
    with JObj assms[of v0] have "creator_entry_skel (k, v') = creator_entry_skel (k, v0)"
      by (simp add: top_field_def)
    from map_update_same[OF Some this] JObj Some show ?thesis by simp
  qed
qed simp_all

lemma affs_skel_replace:
  "affs_skel (replace_items v (map (rw_affiliation old new) (iter_items v))) = affs_skel v"
  by (cases v) (auto simp: iter_items_def rw_affiliation_skel)

lemma rw_aff_creator_skel: "creator_skel (rw_aff_creator old new c) = creator_skel c"
  unfolding rw_aff_creator_def
  by (rule creator_skel_replace)
    (simp add: creator_entry_skel_def affiliations_value_def affs_skel_replace)

lemma rw_org_creator_skel: "creator_skel (rw_org_creator old new c) = creator_skel c"
  unfolding rw_org_creator_def
  by (rule creator_skel_replace)
    (auto simp: creator_entry_skel_def person_value_def delete_update_same split: json.splits)

lemma replace_items_skel:
  assumes "\<And>c. creator_skel (f c) = creator_skel c"
  shows "creators_skel (replace_items creators (map f (iter_items creators))) = creators_skel creators"
  by (cases creators) (auto simp: iter_items_def assms)

lemma rewrite_all_skel:
  assumes "\<And>old new c. creator_skel (rw old new c) = creator_skel c"
  shows "creators_skel (rewrite_all rw ps creators) = creators_skel creators"
proof (induction ps arbitrary: creators)
  case Nil
  then show ?case by simp
next
  case (Cons p ps)
  show ?case
    by (simp add: Cons replace_items_skel[of "rw (fst p) (snd p)", OF assms])
qed

lemma skeleton_put_meta:
  assumes "metadata_ok r" and "k \<in> set written_fields"
  shows "skeleton (put_meta r k v) = skeleton r"
proof -
  from assms(1) obtain kvs where r: "r = JObj kvs"
    by (cases r) (auto simp: metadata_ok_def)
  have top: "filter (\<lambda>kv. fst kv \<noteq> ''metadata'' \<and> fst kv \<noteq> ''custom_fields'')
               (AList.update ''metadata'' x kvs)
           = filter (\<lambda>kv. fst kv \<noteq> ''metadata'' \<and> fst kv \<noteq> ''custom_fields'') kvs" for x
    by (rule filter_update_other) simp
  have inner: "filter (\<lambda>kv. fst kv \<notin> set written_fields) (AList.update k v m)
           = filter (\<lambda>kv. fst kv \<notin> set written_fields) m" for m
    using assms(2) by (intro filter_update_other) simp
  show ?thesis
  proof (cases "map_of kvs ''metadata''")
    case None
    with r show ?thesis
      using inner[of "[]"]
      by (simp add: skeleton_def put_meta_def meta_of_def top_field_def top update_conv')
  next
    case (Some m)
    with assms(1) r obtain mk where "m = JObj mk"
      by (cases m) (auto simp: metadata_ok_def)
    with Some r show ?thesis
      by (simp add: skeleton_def put_meta_def meta_of_def top_field_def top update_conv' inner)
  qed
qed

lemma skeleton_store_creators:
  assumes "metadata_ok r" and "creators_skel v = creators_skel (creators_value r)"
  shows "skeleton (store_creators r v) = skeleton r"
proof -
  from assms(1) obtain kvs where r: "r = JObj kvs"
    by (cases r) (auto simp: metadata_ok_def)
  have top: "filter (\<lambda>kv. fst kv \<noteq> ''metadata'' \<and> fst kv \<noteq> ''custom_fields'')
               (AList.update ''metadata'' x kvs)
           = filter (\<lambda>kv. fst kv \<noteq> ''metadata'' \<and> fst kv \<noteq> ''custom_fields'') kvs" for x
    by (rule filter_update_other) simp
  show ?thesis
  proof (cases "map_of kvs ''metadata''")
    case None
    with r show ?thesis
      by (simp add: store_creators_def)
  next
    case (Some m)
    with assms(1) r obtain mk where m: "m = JObj mk"
      by (cases m) (auto simp: metadata_ok_def)
    show ?thesis
    proof (cases "map_of mk ''creators''")
      case None
      with Some m r show ?thesis
        by (simp add: store_creators_def meta_of_def top_field_def update_triv)
    next
      case cr: (Some cr)
      with Some m r assms(2) have eq: "meta_entry_skel (''creators'', v) = meta_entry_skel (''creators'', cr)"
        by (simp add: meta_entry_skel_def creators_value_def metadata_field_def top_field_def)
      from filter_map_update_same[OF cr eq, of "\<lambda>k. k \<notin> set written_fields"]
      show ?thesis using Some m r cr
        by (simp add: store_creators_def meta_of_def top_field_def skeleton_def top update_conv')
    qed
  qed
qed

lemma skeleton_put_descriptors:
  assumes "custom_fields_ok r" and "descriptor_field r \<noteq> None"
  shows "skeleton (put_descriptors r v) = skeleton r"
proof -
  from assms(1) obtain kvs where r: "r = JObj kvs"
    by (cases r) (auto simp: custom_fields_ok_def)
  from assms(2) r obtain cf where cf: "map_of kvs ''custom_fields'' = Some cf"
    by (auto simp: descriptor_field_def top_field_def split: option.splits)
  with assms(1) r obtain m where m: "cf = JObj m"
    by (cases cf) (auto simp: custom_fields_ok_def)
  have top: "filter (\<lambda>kv. fst kv \<noteq> ''metadata'' \<and> fst kv \<noteq> ''custom_fields'')
               (AList.update ''custom_fields'' x kvs)
           = filter (\<lambda>kv. fst kv \<noteq> ''metadata'' \<and> fst kv \<noteq> ''custom_fields'') kvs" for x
    by (rule filter_update_other) simp
  from r cf m show ?thesis
    by (simp add: skeleton_def put_descriptors_def custom_of_def top_field_def top update_conv'
        delete_update_same)
qed

lemma overwrite_skeleton:
  "overwrite k r c = Some (r', b) \<Longrightarrow> k \<in> set written_fields \<Longrightarrow> skeleton r' = skeleton r"
  using overwrite_shape[of k r c r' b] by (auto simp: skeleton_put_meta)

lemma related_skeleton:
  "add_related_identifiers r ids = Some (r', n) \<Longrightarrow> skeleton r' = skeleton r"
  using related_shape[of r ids r' n] by (auto simp: skeleton_put_meta written_fields_def)

lemma descriptor_skeleton:
  "apply_descriptor_deletions r ds = Some (r', b) \<Longrightarrow> skeleton r' = skeleton r"
  using descriptor_shape[of r ds r' b] by (auto simp: skeleton_put_descriptors)

lemma affiliations_skeleton:
  "apply_affiliations r cs = Some (r', n) \<Longrightarrow> skeleton r' = skeleton r"
  by (auto simp: apply_affiliations_pure skeleton_store_creators rewrite_all_skel
      rw_aff_creator_skel split: if_splits)

lemma org_authors_skeleton:
  "apply_org_authors r cs = Some (r', n) \<Longrightarrow> skeleton r' = skeleton r"
  by (auto simp: apply_org_authors_pure skeleton_store_creators rewrite_all_skel
      rw_org_creator_skel split: if_splits)

section \<open>Frames: what a write leaves alone\<close>

lemma put_meta_frame:
  assumes "metadata_ok r"
  shows "metadata_ok (put_meta r k v)"
    and "metadata_field (put_meta r k v) k' = (if k' = k then Some v else metadata_field r k')"
    and "k' \<noteq> ''metadata'' \<Longrightarrow> top_field (put_meta r k v) k' = top_field r k'"
    and "meta_of (put_meta r k v) = AList.update k v (meta_of r)"
proof -
  from assms obtain kvs where r: "r = JObj kvs"
    by (cases r) (auto simp: metadata_ok_def)
  show "metadata_ok (put_meta r k v)"
    using r by (simp add: put_meta_def metadata_ok_def update_conv')
  show "metadata_field (put_meta r k v) k' = (if k' = k then Some v else metadata_field r k')"
    using r assms
    by (auto simp: put_meta_def metadata_field_def top_field_def meta_of_def metadata_ok_def
        update_conv' split: option.splits json.splits)
  show "k' \<noteq> ''metadata'' \<Longrightarrow> top_field (put_meta r k v) k' = top_field r k'"
    using r by (simp add: put_meta_def top_field_def update_conv')
  show "meta_of (put_meta r k v) = AList.update k v (meta_of r)"
    using r by (simp add: put_meta_def meta_of_def top_field_def update_conv')
qed

lemma store_creators_frame:
  assumes "metadata_ok r"
  shows "metadata_ok (store_creators r v)"
    and "k' \<noteq> ''creators'' \<Longrightarrow> metadata_field (store_creators r v) k' = metadata_field r k'"
    and "k' \<noteq> ''metadata'' \<Longrightarrow> top_field (store_creators r v) k' = top_field r k'"
    and "creators_value (store_creators r v)
         = (if metadata_field r ''creators'' = None then JList [] else v)"
proof -
  from assms obtain kvs where r: "r = JObj kvs"
    by (cases r) (auto simp: metadata_ok_def)
  have m: "map_of kvs ''metadata'' = None \<or> (\<exists>mk. map_of kvs ''metadata'' = Some (JObj mk))"
    using assms r by (auto simp: metadata_ok_def split: option.splits json.splits)
  show "metadata_ok (store_creators r v)"
    using r m
    by (auto simp: store_creators_def metadata_ok_def meta_of_def top_field_def update_conv'
        split: option.splits)
  show "k' \<noteq> ''creators'' \<Longrightarrow> metadata_field (store_creators r v) k' = metadata_field r k'"
    using r m
    by (auto simp: store_creators_def metadata_field_def meta_of_def top_field_def update_conv'
        split: option.splits)
  show "k' \<noteq> ''metadata'' \<Longrightarrow> top_field (store_creators r v) k' = top_field r k'"
    using r m
    by (auto simp: store_creators_def meta_of_def top_field_def update_conv'
        split: option.splits)
  show "creators_value (store_creators r v)
         = (if metadata_field r ''creators'' = None then JList [] else v)"
    using r m
    by (auto simp: store_creators_def creators_value_def metadata_field_def meta_of_def
        top_field_def update_conv' split: option.splits)
qed

lemma put_descriptors_frame:
  assumes "custom_fields_ok r"
  shows "custom_fields_ok (put_descriptors r v)"
    and "k' \<noteq> ''custom_fields'' \<Longrightarrow> top_field (put_descriptors r v) k' = top_field r k'"
    and "descriptor_field (put_descriptors r v) = Some v"
proof -
  from assms obtain kvs where r: "r = JObj kvs"
    by (cases r) (auto simp: custom_fields_ok_def)
  show "custom_fields_ok (put_descriptors r v)"
    using r by (simp add: put_descriptors_def custom_fields_ok_def update_conv')
  show "k' \<noteq> ''custom_fields'' \<Longrightarrow> top_field (put_descriptors r v) k' = top_field r k'"
    using r by (simp add: put_descriptors_def top_field_def update_conv')
  show "descriptor_field (put_descriptors r v) = Some v"
    using r
    by (simp add: put_descriptors_def descriptor_field_def top_field_def update_conv')
qed

lemma metadata_field_cong:
  "top_field r' ''metadata'' = top_field r ''metadata'' \<Longrightarrow>
   metadata_field r' k = metadata_field r k"
  by (simp add: metadata_field_def)

lemma descriptor_field_cong:
  "top_field r' ''custom_fields'' = top_field r ''custom_fields'' \<Longrightarrow>
   descriptor_field r' = descriptor_field r"
  by (simp add: descriptor_field_def)

section \<open>Reading back a written descriptor string\<close>

lemma py_split_pieces: "p \<in> set (py_split sep s) \<Longrightarrow> sep \<notin> set p \<and> set p \<subseteq> set s"
proof (induction s arbitrary: p)
  case Nil
  then show ?case by simp
next
  case (Cons c s)
  show ?case
  proof (cases "c = sep")
    case True
    with Cons show ?thesis by auto
  next
    case False
    from py_split_nonempty[of sep s] obtain q qs where q: "py_split sep s = q # qs"
      by (cases "py_split sep s") auto
    with False Cons.prems have "p = c # q \<or> p \<in> set qs" by auto
    with Cons.IH[of q] Cons.IH[of p] q False show ?thesis by auto
  qed
qed

lemma py_strip_subset: "set (py_strip s) \<subseteq> set s"
  unfolding py_strip_def by (auto dest!: set_dropWhileD)

lemma dropWhile_fixed: "xs = [] \<or> \<not> P (hd xs) \<Longrightarrow> dropWhile P xs = xs"
  by (cases xs) auto

lemma py_strip_idem: "py_strip (py_strip s) = py_strip s"
proof -
  let ?y = "dropWhile is_space s"
  let ?z = "dropWhile is_space (rev ?y)"
  have y: "?y = [] \<or> \<not> is_space (hd ?y)" using hd_dropWhile[of is_space s] by blast
  have z: "?z = [] \<or> \<not> is_space (hd ?z)" using hd_dropWhile[of is_space "rev ?y"] by blast
  have "rev ?z = [] \<or> \<not> is_space (hd (rev ?z))"
  proof (cases "?z = []")
    case True
    then show ?thesis by simp
  next
    case False
    obtain pre where pre: "rev ?y = pre @ ?z"
      by (metis takeWhile_dropWhile_id)
    from False have "hd (rev ?z) = last ?z" by (simp add: hd_rev)
    also from False pre have "\<dots> = last (rev ?y)" by (metis last_appendR)
    also from False pre have "\<dots> = hd ?y"
      by (metis Nil_is_append_conv Nil_is_rev_conv last_rev)
    finally have "hd (rev ?z) = hd ?y" .
    moreover have "?y \<noteq> []"
    proof
      assume "?y = []"
      then have "?z = []" by (simp only: rev.simps dropWhile.simps)
      with False show False by blast
    qed
    ultimately show ?thesis using y by metis
  qed
  then have 1: "dropWhile is_space (rev ?z) = rev ?z" by (rule dropWhile_fixed)
  from z have 2: "dropWhile is_space ?z = ?z" by (rule dropWhile_fixed)
  show ?thesis
    unfolding py_strip_def 1 by (simp add: 2)
qed

lemma parse_entries_ok: "e \<in> set (parse_descriptors s) \<Longrightarrow> entry_ok e"
proof -
  assume "e \<in> set (parse_descriptors s)"
  then obtain p where p: "p \<in> set (py_split CHR '','' (py_replace CHR '';'' CHR '','' s))"
    and e: "e = py_strip p" "e \<noteq> []"
    by (auto simp: parse_descriptors_def)
  from py_split_pieces[OF p] have "CHR '','' \<notin> set p" "CHR '';'' \<notin> set p"
    by (auto simp: py_replace_def)
  with py_strip_subset[of p] e show ?thesis
    by (auto simp: entry_ok_def py_strip_idem)
qed

lemma parse_leading_space:
  "parse_descriptors (CHR '' '' # t) = parse_descriptors t"
proof -
  have sp: "py_strip (CHR '' '' # p) = py_strip p" for p
    by (simp add: py_strip_def is_space_def)
  obtain q qs where q: "py_split CHR '','' (py_replace CHR '';'' CHR '','' t) = q # qs"
    using py_split_nonempty[of "CHR '',''" "py_replace CHR '';'' CHR '','' t"]
    by (cases "py_split CHR '','' (py_replace CHR '';'' CHR '','' t)") auto
  show ?thesis
    by (simp add: parse_descriptors_def py_replace_def q[unfolded py_replace_def] sp)
qed

lemma parse_join:
  "list_all entry_ok es \<Longrightarrow> parse_descriptors (py_join ''; '' es) = es"
proof (induction "''; ''" es rule: py_join.induct)
  case 1
  then show ?case by simp
next
  case (2 x)
  then show ?case
    using parse_descriptors_delimiters(3)[of x] by (simp add: entry_ok_def)
next
  case (3 x y ys)
  from 3 have x: "parse_descriptors x = [x]"
    using parse_descriptors_delimiters(3)[of x] by (simp add: entry_ok_def)
  have "parse_descriptors (py_join ''; '' (x # y # ys))
      = parse_descriptors (x @ CHR '';'' # (CHR '' '' # py_join ''; '' (y # ys)))"
    by simp
  also have "\<dots> = parse_descriptors x @ parse_descriptors (CHR '' '' # py_join ''; '' (y # ys))"
    by (rule parse_descriptors_delimiters(2))
  also have "\<dots> = x # y # ys"
    using 3 x by (simp add: parse_leading_space)
  finally show ?case .
qed

lemma py_join_empty_iff: "list_all entry_ok es \<Longrightarrow> py_join sep es = [] \<longleftrightarrow> es = []"
  by (induction sep es rule: py_join.induct) (auto simp: entry_ok_def)

section \<open>Arrays keep their length and order\<close>

lemma evolves_refl [simp]: "evolves r r"
  by (simp add: evolves_def)

lemma evolves_trans: "evolves r1 r2 \<Longrightarrow> evolves r2 r3 \<Longrightarrow> evolves r1 r3"
  unfolding evolves_def by (auto intro: subseq_order.trans prefix_order.trans)

lemma related_of_cong:
  "metadata_field r' ''related_identifiers'' = metadata_field r ''related_identifiers'' \<Longrightarrow>
   related_of r' = related_of r"
  by (simp add: related_of_def)

lemma descriptor_entries_cong:
  "descriptor_field r' = descriptor_field r \<Longrightarrow> descriptor_entries r' = descriptor_entries r"
  by (simp add: descriptor_entries_def)

lemma overwrite_evolves:
  assumes "overwrite k r c = Some (r', b)" and "k \<in> {''title'', ''description'', ''publication_date''}"
  shows "evolves r r'"
proof -
  from assms(2) have w: "k \<in> set written_fields" and nk: "k \<noteq> ''related_identifiers''"
    by (auto simp: written_fields_def)
  from overwrite_shape[OF assms(1)] consider "r' = r" | "metadata_ok r" "r' = put_meta r k c"
    by blast
  then show ?thesis
  proof cases
    case 1
    then show ?thesis by simp
  next
    case 2
    have "related_of r' = related_of r"
      using 2 nk by (intro related_of_cong) (simp add: put_meta_frame)
    moreover have "descriptor_entries r' = descriptor_entries r"
      using 2 by (intro descriptor_entries_cong descriptor_field_cong) (simp add: put_meta_frame)
    ultimately show ?thesis
      using 2 w by (simp add: evolves_def skeleton_put_meta)
  qed
qed

lemma creators_evolves:
  assumes "metadata_ok r" and "creators_skel v = creators_skel (creators_value r)"
  shows "evolves r (store_creators r v)"
proof -
  have "related_of (store_creators r v) = related_of r"
    using assms(1) by (intro related_of_cong) (simp add: store_creators_frame)
  moreover have "descriptor_entries (store_creators r v) = descriptor_entries r"
    using assms(1)
    by (intro descriptor_entries_cong descriptor_field_cong) (simp add: store_creators_frame)
  ultimately show ?thesis
    using assms by (simp add: evolves_def skeleton_store_creators)
qed

lemma affiliations_evolves: "apply_affiliations r cs = Some (r', n) \<Longrightarrow> evolves r r'"
  by (auto simp: apply_affiliations_pure creators_evolves rewrite_all_skel rw_aff_creator_skel
      split: if_splits)

lemma org_authors_evolves: "apply_org_authors r cs = Some (r', n) \<Longrightarrow> evolves r r'"
  by (auto simp: apply_org_authors_pure creators_evolves rewrite_all_skel rw_org_creator_skel
      split: if_splits)

lemma related_evolves:
  assumes "add_related_identifiers r ids = Some (r', n)"
  shows "evolves r r'"
proof -
  from add_related_identifiers_core[OF assms] have p: "prefix (related_of r) (related_of r')"
    by (auto simp: prefix_def)
  from related_shape[OF assms] consider "r' = r"
    | e where "metadata_ok r" "r' = put_meta r ''related_identifiers'' e"
    by blast
  then show ?thesis
  proof cases
    case 1
    then show ?thesis by simp
  next
    case 2
    have "descriptor_entries r' = descriptor_entries r"
      using 2 by (intro descriptor_entries_cong descriptor_field_cong) (simp add: put_meta_frame)
    with p related_skeleton[OF assms] show ?thesis by (simp add: evolves_def)
  qed
qed

lemma descriptor_evolves:
  assumes "apply_descriptor_deletions r ds = Some (r', b)"
  shows "evolves r r'"
proof -
  note core = descriptor_deletion_core[of r ds r' b]
  from descriptor_shape[OF assms] consider "r' = r"
    | v where "b" "custom_fields_ok r" "descriptor_field r \<noteq> None" "r' = put_descriptors r v"
    by blast
  then show ?thesis
  proof cases
    case 1
    then show ?thesis by simp
  next
    case 2
    have "top_field r' ''metadata'' = top_field r ''metadata''"
      using 2 by (simp add: put_descriptors_frame)
    then have rel: "related_of r' = related_of r"
      by (intro related_of_cong metadata_field_cong)
    have sub: "subseq (descriptor_entries r') (descriptor_entries r)"
    proof (cases "descriptor_field r")
      case None
      with 2 show ?thesis by simp
    next
      case (Some d)
      show ?thesis
      proof (cases d)
        case (JStr s)
        let ?kept = "filter (\<lambda>x. \<not> deleted ds x) (parse_descriptors s)"
        from core assms Some JStr 2(1)
        have f: "descriptor_field r' = Some (JStr (py_join ''; '' ?kept))" by simp
        have "list_all entry_ok ?kept"
          by (auto simp: list_all_iff parse_entries_ok)
        then have "parse_descriptors (py_join ''; '' ?kept) = ?kept" by (rule parse_join)
        with f Some JStr show ?thesis
          by (simp add: descriptor_entries_def subseq_map)
      next
        case (JList xs)
        from core assms Some JList
        have "descriptor_field r' = Some (JList (filter (\<lambda>x. \<not> deleted ds (text_of x)) xs))"
          by simp
        with Some JList show ?thesis
          by (simp add: descriptor_entries_def)
      qed (use assms Some 2(1,2) core in \<open>simp_all add: unrecognized_def\<close>)
    qed
    from rel sub descriptor_skeleton[OF assms] show ?thesis by (simp add: evolves_def)
  qed
qed

lemma title_step_evolves: "title_step report cors st = Some st' \<Longrightarrow> evolves (doc st) (doc st')"
  by (auto simp: title_step_def appliers_overwrite split: bind_splits if_splits
      dest!: overwrite_evolves)

lemma abstract_step_evolves:
  "abstract_step report cors st = Some st' \<Longrightarrow> evolves (doc st) (doc st')"
  by (auto simp: abstract_step_def appliers_overwrite split: bind_splits if_splits
      dest!: overwrite_evolves)

lemma date_step_evolves: "date_step report cors st = Some st' \<Longrightarrow> evolves (doc st) (doc st')"
  by (auto simp: date_step_def appliers_overwrite split: bind_splits if_splits
      dest!: overwrite_evolves)

lemma descriptor_step_evolves:
  "descriptor_step report cors st = Some st' \<Longrightarrow> evolves (doc st) (doc st')"
  by (auto simp: descriptor_step_def Let_def split: bind_splits if_splits
      dest!: descriptor_evolves)

lemma affiliation_step_evolves:
  "affiliation_step report st = Some st' \<Longrightarrow> evolves (doc st) (doc st')"
  by (auto simp: affiliation_step_def Let_def split: bind_splits if_splits
      dest!: affiliations_evolves)

lemma org_step_evolves: "org_step report st = Some st' \<Longrightarrow> evolves (doc st) (doc st')"
  by (auto simp: org_step_def Let_def split: bind_splits if_splits dest!: org_authors_evolves)

lemma related_step_evolves: "related_step cors st = Some st' \<Longrightarrow> evolves (doc st) (doc st')"
  by (auto simp: related_step_def split: bind_splits if_splits dest!: related_evolves)

lemma apply_corrections_evolves:
  assumes "apply_corrections r report = Some (r', chg, acts, un)"
  shows "evolves r r'"
proof -
  from assms obtain cors st1 st2 st3 st4 st5 st6 st7 where
    s1: "title_step report cors \<lparr>doc = r, changed = False, actions = [], unapplied = []\<rparr> = Some st1"
    and s2: "abstract_step report cors st1 = Some st2"
    and s3: "date_step report cors st2 = Some st3"
    and s4: "descriptor_step report cors st3 = Some st4"
    and s5: "affiliation_step report st4 = Some st5"
    and s6: "org_step report st5 = Some st6"
    and s7: "related_step cors st6 = Some st7"
    and r': "r' = doc st7"
    by (auto simp: apply_corrections_def Let_def split: bind_splits)
  from title_step_evolves[OF s1] have "evolves r (doc st1)" by simp
  with abstract_step_evolves[OF s2] have "evolves r (doc st2)" by (blast intro: evolves_trans)
  with date_step_evolves[OF s3] have "evolves r (doc st3)" by (blast intro: evolves_trans)
  with descriptor_step_evolves[OF s4] have "evolves r (doc st4)" by (blast intro: evolves_trans)
  with affiliation_step_evolves[OF s5] have "evolves r (doc st5)" by (blast intro: evolves_trans)
  with org_step_evolves[OF s6] have "evolves r (doc st6)" by (blast intro: evolves_trans)
  with related_step_evolves[OF s7] r' show ?thesis by (blast intro: evolves_trans)
qed

lemma map_of_meta_skel:
  "map_of (map meta_entry_skel (filter (\<lambda>kv. fst kv \<notin> set written_fields) m)) ''creators''
   = map_option creators_skel (map_of m ''creators'')"
  by (induction m) (auto simp: meta_entry_skel_def written_fields_def)

lemma map_of_creator_skel:
  "map_of (map creator_entry_skel kvs) ''affiliations''
   = map_option affs_skel (map_of kvs ''affiliations'')"
  by (induction kvs) (auto simp: creator_entry_skel_def)

lemma skeleton_reads_creators:
  "(case skeleton r of
      JObj l \<Rightarrow> (case map_of l ''metadata'' of Some (JObj sl) \<Rightarrow> map_of sl ''creators'' | _ \<Rightarrow> None)
    | _ \<Rightarrow> None)
   = map_option creators_skel (metadata_field r ''creators'')"
proof (cases r)
  case (JObj kvs)
  have none: "map_of (filter (\<lambda>kv. fst kv \<noteq> ''metadata'' \<and> fst kv \<noteq> ''custom_fields'') kvs)
      ''metadata'' = None"
    by (induction kvs) auto
  show ?thesis
  proof (cases "map_of kvs ''metadata''")
    case None
    with JObj none show ?thesis
      by (simp add: skeleton_def map_add_def metadata_field_def top_field_def)
  next
    case (Some m)
    with JObj none show ?thesis
      by (cases m)
        (simp_all add: skeleton_def map_add_def metadata_field_def top_field_def
          map_of_meta_skel)
  qed
qed (simp_all add: skeleton_def metadata_field_def top_field_def)

lemma skeleton_creators:
  assumes "skeleton r' = skeleton r"
  shows "length (creators_of r') = length (creators_of r) \<and>
         (\<forall>i<length (creators_of r).
            creator_skel (creators_of r' ! i) = creator_skel (creators_of r ! i))"
proof -
  from assms skeleton_reads_creators[of r] skeleton_reads_creators[of r']
  have eq: "map_option creators_skel (metadata_field r' ''creators'')
          = map_option creators_skel (metadata_field r ''creators'')" by simp
  show ?thesis
  proof (cases "metadata_field r ''creators''")
    case None
    with eq show ?thesis by (simp add: creators_of_def)
  next
    case (Some v)
    with eq obtain v' where v': "metadata_field r' ''creators'' = Some v'"
      "creators_skel v' = creators_skel v" by auto
    show ?thesis
    proof (cases v)
      case (JList cs)
      with v'(2) obtain cs' where cs': "v' = JList cs'" "map creator_skel cs' = map creator_skel cs"
        by (cases v') auto
      from cs'(2) have "length cs' = length cs" by (rule map_eq_imp_length_eq)
      moreover from cs'(2) have "\<forall>i<length cs. creator_skel (cs' ! i) = creator_skel (cs ! i)"
        by (metis calculation nth_map)
      ultimately show ?thesis using Some v'(1) JList cs'(1) by (simp add: creators_of_def)
    qed (use Some v' in \<open>cases v'; simp add: creators_of_def\<close>)+
  qed
qed

lemma creator_skel_affiliations:
  assumes "creator_skel c' = creator_skel c"
  shows "length (affiliations_of c') = length (affiliations_of c) \<and>
         (\<forall>j<length (affiliations_of c).
            name_skel (affiliations_of c' ! j) = name_skel (affiliations_of c ! j))"
proof (cases c)
  case (JObj kvs)
  with assms obtain kvs' where c': "c' = JObj kvs'"
    "map creator_entry_skel kvs' = map creator_entry_skel kvs"
    by (cases c') auto
  from c'(2) map_of_creator_skel[of kvs] map_of_creator_skel[of kvs']
  have eq: "map_option affs_skel (map_of kvs' ''affiliations'')
          = map_option affs_skel (map_of kvs ''affiliations'')" by simp
  show ?thesis
  proof (cases "map_of kvs ''affiliations''")
    case None
    with eq JObj c'(1) show ?thesis by (simp add: affiliations_of_def top_field_def)
  next
    case (Some v)
    with eq obtain v' where v': "map_of kvs' ''affiliations'' = Some v'"
      "affs_skel v' = affs_skel v" by auto
    show ?thesis
    proof (cases v)
      case (JList xs)
      with v'(2) obtain xs' where xs': "v' = JList xs'" "map name_skel xs' = map name_skel xs"
        by (cases v') auto
      from xs'(2) have "length xs' = length xs" by (rule map_eq_imp_length_eq)
      moreover from xs'(2) have "\<forall>j<length xs. name_skel (xs' ! j) = name_skel (xs ! j)"
        by (metis calculation nth_map)
      ultimately show ?thesis using Some v'(1) JList xs'(1) JObj c'(1)
        by (simp add: affiliations_of_def top_field_def)
    qed (use Some v' JObj c'(1) in \<open>cases v'; simp add: affiliations_of_def top_field_def\<close>)+
  qed
qed (use assms in \<open>cases c'; simp add: affiliations_of_def top_field_def\<close>)+

section \<open>Idempotence of the scalar appliers\<close>

lemma py_eq_refl: "wf_json v \<Longrightarrow> py_eq v v"
proof (induction v)
  case (JList xs)
  then show ?case by (auto simp: list_all_iff intro!: list.rel_refl_strong)
next
  case (JObj kvs)
  have "\<And>k v. (k, v) \<in> set kvs \<Longrightarrow> map_of kvs k = Some v \<and> py_eq v v"
  proof -
    fix k v assume kv: "(k, v) \<in> set kvs"
    with JObj.prems have "map_of kvs k = Some v" by simp
    moreover from kv JObj.prems have "wf_json v" by (auto simp: list_all_iff)
    with JObj.IH[of "(k, v)" v] kv have "py_eq v v" by auto
    ultimately show "map_of kvs k = Some v \<and> py_eq v v" ..
  qed
  then show ?case by (auto simp: list_all_iff)
qed simp_all

lemma wf_json_field: "wf_json d \<Longrightarrow> top_field d k = Some v \<Longrightarrow> wf_json v"
  by (cases d) (auto simp: top_field_def list_all_iff dest!: map_of_SomeD)

lemma overwrite_noop_iff:
  "overwrite k r c = Some (r, False) \<longleftrightarrow> noop_scalar k c r"
  using overwrite_contract[of k r c]
  unfolding scalar_contract_def noop_scalar_def by (cases "truthy c"; cases "metadata_ok r") auto

lemma overwrite_then_noop:
  assumes "overwrite k r c = Some (r', b)" and "wf_json c"
  shows "noop_scalar k c r'"
proof -
  from overwrite_shape[OF assms(1)] consider "\<not> b" "r' = r"
    | "b" "truthy c" "metadata_ok r" "r' = put_meta r k c" by blast
  then show ?thesis
  proof cases
    case 1
    with assms(1) show ?thesis by (simp add: overwrite_noop_iff[symmetric])
  next
    case 2
    then show ?thesis
      using py_eq_refl[OF assms(2)]
      by (simp add: noop_scalar_def put_meta_frame current_value_def)
  qed
qed

section \<open>Writes to one slot leave the others alone\<close>

lemma writes_refl [simp]: "writes s r r"
  by (simp add: writes_def)

lemma store_creators_put_meta:
  assumes "metadata_ok r"
  shows "store_creators r v = r \<or> store_creators r v = put_meta r ''creators'' v"
proof -
  from assms obtain kvs where r: "r = JObj kvs"
    by (cases r) (auto simp: metadata_ok_def)
  show ?thesis
  proof (cases "map_of kvs ''metadata''")
    case None
    with r show ?thesis by (simp add: store_creators_def)
  next
    case (Some m)
    with assms r obtain mk where m: "m = JObj mk"
      by (cases m) (auto simp: metadata_ok_def)
    with Some r show ?thesis
      by (cases "map_of mk ''creators''")
        (simp_all add: store_creators_def put_meta_def meta_of_def top_field_def update_triv)
  qed
qed

lemma put_meta_obj: "metadata_ok r \<Longrightarrow> is_obj (put_meta r k v)"
  by (cases r) (auto simp: put_meta_def metadata_ok_def)

lemma writes_meta_frame:
  assumes "writes (Meta k) r r'"
  shows "metadata_ok r \<Longrightarrow> metadata_ok r'"
    and "k' \<noteq> k \<Longrightarrow> metadata_field r' k' = metadata_field r k'"
    and "k' \<noteq> ''metadata'' \<Longrightarrow> top_field r' k' = top_field r k'"
    and "is_obj r \<Longrightarrow> is_obj r'"
proof -
  from assms consider "r' = r" | v where "metadata_ok r" "r' = put_meta r k v"
    by (auto simp: writes_def)
  note c = this
  show "metadata_ok r \<Longrightarrow> metadata_ok r'"
    by (rule c) (simp_all add: put_meta_frame)
  show "k' \<noteq> k \<Longrightarrow> metadata_field r' k' = metadata_field r k'"
    by (rule c) (simp_all add: put_meta_frame)
  show "k' \<noteq> ''metadata'' \<Longrightarrow> top_field r' k' = top_field r k'"
    by (rule c) (simp_all add: put_meta_frame)
  show "is_obj r \<Longrightarrow> is_obj r'"
    by (rule c) (simp_all add: put_meta_obj)
qed

lemma writes_descriptors_frame:
  assumes "writes Descriptors r r'"
  shows "k' \<noteq> ''custom_fields'' \<Longrightarrow> top_field r' k' = top_field r k'"
    and "metadata_ok r' = metadata_ok r"
    and "metadata_field r' k = metadata_field r k"
proof -
  show t: "k' \<noteq> ''custom_fields'' \<Longrightarrow> top_field r' k' = top_field r k'" for k'
    using assms by (auto simp: writes_def put_descriptors_frame)
  from assms consider "r' = r" | v where "custom_fields_ok r" "r' = put_descriptors r v"
    by (auto simp: writes_def)
  then show "metadata_ok r' = metadata_ok r"
  proof cases
    case 2
    then obtain kvs where "r = JObj kvs" by (cases r) (auto simp: custom_fields_ok_def)
    with 2 show ?thesis by (simp add: metadata_ok_def put_descriptors_def update_conv')
  qed simp
  show "metadata_field r' k = metadata_field r k"
    by (rule metadata_field_cong) (simp add: t)
qed

lemma noop_scalar_writes_meta:
  "noop_scalar k c r \<Longrightarrow> writes (Meta k') r r' \<Longrightarrow> k' \<noteq> k \<Longrightarrow> noop_scalar k c r'"
  by (auto simp: noop_scalar_def current_value_def writes_meta_frame)

lemma noop_scalar_writes_descriptors:
  "noop_scalar k c r \<Longrightarrow> writes Descriptors r r' \<Longrightarrow> noop_scalar k c r'"
  by (auto simp: noop_scalar_def current_value_def writes_descriptors_frame)

lemma overwrite_writes: "overwrite k r c = Some (r', b) \<Longrightarrow> writes (Meta k) r r'"
  using overwrite_shape[of k r c r' b] by (auto simp: writes_def)

lemma related_writes:
  "add_related_identifiers r ids = Some (r', n) \<Longrightarrow> writes (Meta ''related_identifiers'') r r'"
  using related_shape[of r ids r' n] by (auto simp: writes_def)

lemma descriptor_writes:
  "apply_descriptor_deletions r ds = Some (r', b) \<Longrightarrow> writes Descriptors r r'"
  using descriptor_shape[of r ds r' b] by (auto simp: writes_def)

lemma affiliations_writes:
  "apply_affiliations r cs = Some (r', n) \<Longrightarrow> writes (Meta ''creators'') r r'"
  using store_creators_put_meta[of r]
  by (auto simp: apply_affiliations_pure writes_def split: if_splits)

lemma org_authors_writes:
  "apply_org_authors r cs = Some (r', n) \<Longrightarrow> writes (Meta ''creators'') r r'"
  using store_creators_put_meta[of r]
  by (auto simp: apply_org_authors_pure writes_def split: if_splits)

section \<open>Idempotence of descriptor deletion\<close>

lemma map_option_list_total:
  "(\<forall>x\<in>set xs. f x \<noteq> None) \<Longrightarrow> map_option_list f xs \<noteq> None"
  by (induction xs) (auto split: bind_splits)

lemma delete_descriptors_iter:
  "delete_descriptors r cf i dl ds = Some x \<Longrightarrow>
   \<exists>items L. py_iter ds = Some items \<and> map_option_list str_lower (filter truthy items) = Some L"
  by (auto simp: delete_descriptors_def split: bind_splits)

lemma delete_descriptors_returns:
  assumes "is_obj r" "is_obj cf" "py_iter ds = Some items"
    "map_option_list str_lower (filter truthy items) = Some L"
    "\<forall>d\<in>set dl. \<exists>s. d = JStr s"
  shows "delete_descriptors r cf i dl ds \<noteq> None"
proof -
  from assms(5) have "map_option_list str_lower dl \<noteq> None"
    by (intro map_option_list_total) auto
  then obtain lowered where lo: "map_option_list str_lower dl = Some lowered" by auto
  from assms(1) obtain kvs where r: "r = JObj kvs" by (cases r) auto
  from assms(2) obtain m where cf: "cf = JObj m" by (cases cf) auto
  show ?thesis
    by (auto simp: delete_descriptors_def assms(3,4) lo Let_def r cf)
qed

lemma delete_descriptors_indep:
  "delete_descriptors r cf i dl ds = Some (r0, False) \<Longrightarrow>
   delete_descriptors r' cf i dl ds = Some (r', False)"
  by (auto simp: delete_descriptors_def Let_def split: bind_splits if_splits)

lemma descriptor_noop_frame:
  assumes "apply_descriptor_deletions r ds = Some (r, False)"
    and "is_obj r'" and "top_field r' ''custom_fields'' = top_field r ''custom_fields''"
  shows "apply_descriptor_deletions r' ds = Some (r', False)"
proof (cases "truthy ds")
  case False
  then show ?thesis by (simp add: apply_descriptor_deletions_def)
next
  case True
  with assms(1) obtain cf d where
    cf: "dict_get r ''custom_fields'' (JObj []) = Some cf" and
    d: "dict_get cf descriptors_key JNull = Some d"
    by (auto simp: apply_descriptor_deletions_def split: bind_splits)
  from cf have "is_obj r" by (cases r) auto
  with cf assms(2,3) have cf': "dict_get r' ''custom_fields'' (JObj []) = Some cf"
    by (simp add: dict_get_obj)
  from assms(1) True cf d cf' show ?thesis
    by (cases d)
      (auto simp: apply_descriptor_deletions_def dest: delete_descriptors_indep[where r' = r'])
qed

lemma apply_descriptor_deletions_returns:
  assumes "custom_fields_ok r" "py_iter ds = Some items"
    "map_option_list str_lower (filter truthy items) = Some L"
    "\<forall>xs. descriptor_field r = Some (JList xs) \<longrightarrow> (\<forall>d\<in>set xs. \<exists>s. d = JStr s)"
  shows "apply_descriptor_deletions r ds \<noteq> None"
proof -
  from descriptor_lookup_ok[OF assms(1)] obtain cf where
    cf: "dict_get r ''custom_fields'' (JObj []) = Some cf"
      "dict_get cf descriptors_key JNull =
         Some (case descriptor_field r of None \<Rightarrow> JNull | Some v \<Rightarrow> v)"
    by blast
  from cf(1) have ro: "is_obj r" by (cases r) auto
  from cf(2) have co: "is_obj cf" by (cases cf) auto
  show ?thesis
  proof (cases "descriptor_field r")
    case None
    with cf show ?thesis by (auto simp: apply_descriptor_deletions_def)
  next
    case (Some v)
    show ?thesis
    proof (cases v)
      case (JStr s)
      with Some cf
        delete_descriptors_returns[OF ro co assms(2,3), of "map JStr (parse_descriptors s)" True]
      show ?thesis by (auto simp: apply_descriptor_deletions_def)
    next
      case (JList xs)
      with Some cf assms(4) delete_descriptors_returns[OF ro co assms(2,3), of xs False]
      show ?thesis by (auto simp: apply_descriptor_deletions_def)
    qed (use Some cf in \<open>auto simp: apply_descriptor_deletions_def\<close>)
  qed
qed

lemma descriptor_then_noop:
  assumes "apply_descriptor_deletions r ds = Some (r', b)"
  shows "apply_descriptor_deletions r' ds = Some (r', False)"
proof (cases b)
  case False
  with descriptor_deletion_core[of r ds r' b] assms show ?thesis by simp
next
  case True
  with assms obtain cf d where
    cf: "dict_get r ''custom_fields'' (JObj []) = Some cf" and
    d: "dict_get cf descriptors_key JNull = Some d" and td: "truthy d"
    and tdel: "truthy ds"
    by (auto simp: apply_descriptor_deletions_def split: bind_splits if_splits)
  from descriptor_lookup[OF cf d] td have fld: "descriptor_field r = Some d" by auto
  from assms True cf d td tdel obtain is_str dl where
    dd: "delete_descriptors r cf is_str dl ds = Some (r', True)"
    and dl: "(\<exists>s. d = JStr s \<and> dl = map JStr (parse_descriptors s)) \<or> d = JList dl"
    by (cases d) (auto simp: apply_descriptor_deletions_def)
  from delete_descriptors_iter[OF dd] obtain items L where
    it: "py_iter ds = Some items" "map_option_list str_lower (filter truthy items) = Some L"
    by blast
  from delete_descriptors_spec[OF dd] have strs: "\<forall>x\<in>set dl. \<exists>s. x = JStr s" by simp
  from descriptor_shape[OF assms] True obtain v where
    ok: "custom_fields_ok r" and r': "r' = put_descriptors r v" by auto
  note core1 = descriptor_deletion_core[of r ds r' b]
  have ok': "custom_fields_ok r'" using ok r' by (simp add: put_descriptors_frame)
  have lists: "\<forall>xs. descriptor_field r' = Some (JList xs) \<longrightarrow> (\<forall>x\<in>set xs. \<exists>s. x = JStr s)"
  proof (intro allI impI)
    fix xs assume f': "descriptor_field r' = Some (JList xs)"
    from dl show "\<forall>x\<in>set xs. \<exists>s. x = JStr s"
    proof
      assume "\<exists>s. d = JStr s \<and> dl = map JStr (parse_descriptors s)"
      with core1 assms fld True f' show ?thesis by auto
    next
      assume "d = JList dl"
      with core1 assms fld f' have "xs = filter (\<lambda>x. \<not> deleted ds (text_of x)) dl" by simp
      with strs show ?thesis by auto
    qed
  qed
  from apply_descriptor_deletions_returns[OF ok' it lists] obtain r2 b2 where
    run2: "apply_descriptor_deletions r' ds = Some (r2, b2)" by auto
  note core2 = descriptor_deletion_core[of r' ds r2 b2]
  have "\<not> b2"
    using dl
  proof
    assume "\<exists>s. d = JStr s \<and> dl = map JStr (parse_descriptors s)"
    then obtain s where s: "d = JStr s" by blast
    let ?kept = "filter (\<lambda>x. \<not> deleted ds x) (parse_descriptors s)"
    from core1 assms fld s True
    have f': "descriptor_field r' = Some (JStr (py_join ''; '' ?kept))" by simp
    have "list_all entry_ok ?kept" by (auto simp: list_all_iff parse_entries_ok)
    then have "parse_descriptors (py_join ''; '' ?kept) = ?kept" by (rule parse_join)
    with core2 run2 f' show ?thesis by auto
  next
    assume "d = JList dl"
    with core1 assms fld
    have "descriptor_field r' = Some (JList (filter (\<lambda>x. \<not> deleted ds (text_of x)) dl))"
      by simp
    with core2 run2 show ?thesis by auto
  qed
  with core2 run2 show ?thesis by simp
qed

lemma descriptor_noop_writes_meta:
  assumes "apply_descriptor_deletions r ds = Some (r, False)" and "writes (Meta k) r r'"
  shows "apply_descriptor_deletions r' ds = Some (r', False)"
proof (cases "truthy ds")
  case False
  then show ?thesis by (simp add: apply_descriptor_deletions_def)
next
  case True
  with assms(1) have "is_obj r"
    by (cases r) (auto simp: apply_descriptor_deletions_def)
  with assms(2) have "is_obj r'" by (simp add: writes_meta_frame)
  moreover from assms(2) have "top_field r' ''custom_fields'' = top_field r ''custom_fields''"
    by (simp add: writes_meta_frame)
  ultimately show ?thesis by (rule descriptor_noop_frame[OF assms(1)])
qed

section \<open>Rewriting settles in one pass when no pair chains\<close>

lemma replace_items_same [simp]: "replace_items v (iter_items v) = v"
  by (cases v) (simp_all add: iter_items_def)

lemma rewrite_all_empty [simp]: "rewrite_all rw ps (JList []) = JList []"
  by (induction ps) (simp_all add: iter_items_def)

lemma py_iter_iterable [simp]:
  "(\<exists>y. py_iter v = Some y) = iterable v" "(py_iter v = None) = (\<not> iterable v)"
  by (cases v; simp)+

lemma iter_items_replace:
  "iterable creators \<Longrightarrow> list_all is_obj (iter_items creators) \<Longrightarrow>
   iter_items (replace_items creators (map f (iter_items creators))) = map f (iter_items creators)"
  by (cases creators) (auto simp: iter_items_def list_all_iff)

lemma py_iter_replace [simp]: "iterable (replace_items creators xs) = iterable creators"
  by (cases creators) auto

lemma rewrite_all_ok:
  assumes ok_rw: "\<And>old new c. ok c \<Longrightarrow> ok (rw old new c)"
    and ok_obj: "\<And>c. ok c \<Longrightarrow> is_obj c"
    and "iterable creators" and "list_all ok (iter_items creators)"
  shows "iterable (rewrite_all rw ps creators) \<and>
         list_all ok (iter_items (rewrite_all rw ps creators))"
  using assms(3,4)
proof (induction ps arbitrary: creators)
  case Nil
  then show ?case by simp
next
  case (Cons p ps)
  from Cons.prems(2) have obj: "list_all is_obj (iter_items creators)"
    by (auto simp: list_all_iff ok_obj)
  have "iterable (replace_items creators (map (rw (fst p) (snd p)) (iter_items creators)))"
    using Cons.prems(1) by simp
  moreover have "list_all ok (iter_items
      (replace_items creators (map (rw (fst p) (snd p)) (iter_items creators))))"
    using Cons.prems(2)
    by (auto simp: iter_items_replace[OF Cons.prems(1) obj] list_all_iff ok_rw)
  ultimately show ?case using Cons.IH by simp
qed

lemma rewrite_all_settles:
  assumes names_rw: "\<And>old new c. ok c \<Longrightarrow>
      names (rw old new c) = map (\<lambda>x. if py_eq x old then new else x) (names c)"
    and ok_rw: "\<And>old new c. ok c \<Longrightarrow> ok (rw old new c)"
    and ok_obj: "\<And>c. ok c \<Longrightarrow> is_obj c"
  shows "iterable creators \<Longrightarrow> list_all ok (iter_items creators) \<Longrightarrow>
    \<forall>c\<in>set (iter_items creators). \<forall>x\<in>set (names c). \<forall>old\<in>set prev. \<not> py_eq x old \<Longrightarrow>
    no_back_chain prev ps \<Longrightarrow>
    \<forall>c\<in>set (iter_items (rewrite_all rw ps creators)). \<forall>x\<in>set (names c).
      \<forall>old\<in>set prev \<union> fst ` set ps. \<not> py_eq x old"
proof (induction ps arbitrary: creators prev)
  case Nil
  then show ?case by simp
next
  case (Cons p ps)
  let ?c1 = "replace_items creators (map (rw (fst p) (snd p)) (iter_items creators))"
  from Cons.prems(2) have obj: "list_all is_obj (iter_items creators)"
    by (auto simp: list_all_iff ok_obj)
  note it = iter_items_replace[OF Cons.prems(1) obj, of "rw (fst p) (snd p)"]
  have 1: "iterable ?c1" using Cons.prems(1) by simp
  have 2: "list_all ok (iter_items ?c1)"
    using Cons.prems(2) by (auto simp: it list_all_iff ok_rw)
  have 3: "\<forall>c\<in>set (iter_items ?c1). \<forall>x\<in>set (names c). \<forall>old\<in>set (fst p # prev). \<not> py_eq x old"
  proof (intro ballI)
    fix c x old
    assume c: "c \<in> set (iter_items ?c1)" and x: "x \<in> set (names c)"
      and old: "old \<in> set (fst p # prev)"
    from c it obtain c0 where c0: "c0 \<in> set (iter_items creators)" "c = rw (fst p) (snd p) c0"
      by auto
    from c0(1) Cons.prems(2) have "ok c0" by (auto simp: list_all_iff)
    from names_rw[OF this, of "fst p" "snd p"] x c0(2)
    obtain x0 where x0: "x0 \<in> set (names c0)" "x = (if py_eq x0 (fst p) then snd p else x0)"
      by auto
    show "\<not> py_eq x old"
    proof (cases "py_eq x0 (fst p)")
      case True
      with x0 have "x = snd p" by simp
      with Cons.prems(4) old show ?thesis by (auto simp: list_all_iff)
    next
      case False
      with x0 have "x = x0" by simp
      with False x0(1) c0(1) Cons.prems(3) old show ?thesis by auto
    qed
  qed
  have 4: "no_back_chain (fst p # prev) ps"
    using Cons.prems(4) by simp
  from Cons.IH[OF 1 2 3 4] show ?case by auto
qed

lemma rewrite_all_fixed:
  assumes hits: "\<And>old c. hits old c = length (filter (\<lambda>x. py_eq x old) (names c))"
    and fixed: "\<And>old new c. hits old c = 0 \<Longrightarrow> rw old new c = c"
    and "settled names ps creators"
  shows "rewrite_all rw ps creators = creators \<and> count_all hits rw ps creators = 0"
  using assms(3)
proof (induction ps arbitrary: creators)
  case Nil
  then show ?case by simp
next
  case (Cons p ps)
  have zero: "\<forall>c\<in>set (iter_items creators). hits (fst p) c = 0"
    using Cons.prems by (auto simp: settled_def hits filter_empty_conv)
  then have "map (rw (fst p) (snd p)) (iter_items creators) = iter_items creators"
    by (auto simp: fixed intro: map_idI)
  moreover have "settled names ps creators"
    using Cons.prems by (simp add: settled_def)
  ultimately show ?case using zero Cons.IH by simp
qed

lemma settled_cong:
  assumes "map names (iter_items creators') = map names (iter_items creators)"
  shows "settled names ps creators' = settled names ps creators"
proof -
  have img: "names ` set (iter_items creators') = names ` set (iter_items creators)"
    using assms by (metis list.set_map)
  have "settled names ps c = (\<forall>ns\<in>names ` set (iter_items c). \<forall>x\<in>set ns. \<forall>p\<in>set ps.
      \<not> py_eq x (fst p))" for c
    by (auto simp: settled_def)
  then show ?thesis by (simp only: img)
qed

lemma rewrite_all_map_cong:
  assumes "\<And>old new c. g (rw old new c) = g c"
  shows "map g (iter_items (rewrite_all rw ps creators)) = map g (iter_items creators)"
proof (induction ps arbitrary: creators)
  case Nil
  then show ?case by simp
next
  case (Cons p ps)
  have "map g (iter_items (replace_items creators (map (rw (fst p) (snd p)) (iter_items creators))))
      = map g (iter_items creators)"
    by (cases creators) (auto simp: iter_items_def assms)
  with Cons show ?case by simp
qed

lemma rewrite_all_iterable [simp]: "iterable (rewrite_all rw ps creators) = iterable creators"
  by (induction ps arbitrary: creators) simp_all

section \<open>Affiliation names and organization names under rewriting\<close>

lemma dict_replace_same: "top_field c k = Some v \<or> top_field c k = None \<Longrightarrow>
  dict_replace c k (case top_field c k of None \<Rightarrow> d | Some v \<Rightarrow> v) = c"
  by (cases c) (auto simp: top_field_def update_triv split: option.splits)

lemma top_field_dict_replace:
  "top_field (dict_replace c k v) k' =
     (if k' = k \<and> top_field c k \<noteq> None then Some v else top_field c k')"
  by (cases c) (auto simp: top_field_def update_conv' split: option.splits)

lemma is_obj_dict_replace [simp]: "is_obj (dict_replace c k v) = is_obj c"
  by (cases c) (auto split: option.splits)

lemma aff_value_rw:
  "aff_creator_ok c \<Longrightarrow>
   iter_items (affiliations_value (rw_aff_creator old new c))
     = map (rw_affiliation old new) (iter_items (affiliations_value c))"
proof -
  assume ok: "aff_creator_ok c"
  let ?v = "affiliations_value c"
  from ok have it: "iterable ?v" "list_all is_obj (iter_items ?v)"
    by (auto simp: aff_creator_ok_def)
  show ?thesis
  proof (cases "top_field c ''affiliations''")
    case None
    then show ?thesis
      by (simp add: rw_aff_creator_def affiliations_value_def top_field_dict_replace
          iter_items_def)
  next
    case (Some v)
    then have "affiliations_value (rw_aff_creator old new c)
        = replace_items ?v (map (rw_affiliation old new) (iter_items ?v))"
      by (simp add: rw_aff_creator_def affiliations_value_def top_field_dict_replace)
    with iter_items_replace[OF it] show ?thesis by simp
  qed
qed

lemma aff_names_rw:
  assumes "aff_creator_ok c"
  shows "aff_names (rw_aff_creator old new c)
       = map (\<lambda>x. if py_eq x old then new else x) (aff_names c)"
proof -
  have "get_or_empty (rw_affiliation old new a) ''name''
      = (if py_eq (get_or_empty a ''name'') old then new else get_or_empty a ''name'')"
    if "is_obj a" for a
    using that
    by (cases a) (auto simp: rw_affiliation_def get_or_empty_def top_field_def update_conv')
  with assms show ?thesis
    by (auto simp: aff_names_def aff_value_rw[OF assms] aff_creator_ok_def list_all_iff)
qed

lemma aff_hits_zero_fixed: "aff_hits old c = 0 \<Longrightarrow> rw_aff_creator old new c = c"
proof -
  assume "aff_hits old c = 0"
  then have "\<forall>a\<in>set (iter_items (affiliations_value c)). \<not> py_eq (get_or_empty a ''name'') old"
    by (auto simp: aff_hits_def aff_names_def filter_empty_conv)
  then have "map (rw_affiliation old new) (iter_items (affiliations_value c))
      = iter_items (affiliations_value c)"
    by (auto simp: rw_affiliation_def intro: map_idI)
  then show ?thesis
    by (cases c)
      (auto simp: rw_aff_creator_def affiliations_value_def top_field_def update_triv
        split: option.splits)
qed

lemma org_names_rw:
  assumes "org_creator_ok c"
  shows "org_names (rw_org_creator old new c)
       = map (\<lambda>x. if py_eq x old then new else x) (org_names c)"
proof -
  from assms obtain kvs where c: "c = JObj kvs" by (cases c) (auto simp: org_creator_ok_def)
  from assms obtain p where p: "person_value c = JObj p"
    by (cases "person_value c") (auto simp: org_creator_ok_def)
  show ?thesis
  proof (cases "map_of kvs ''person_or_org''")
    case None
    with c p show ?thesis
      by (auto simp: rw_org_creator_def org_names_def person_value_def top_field_def)
  next
    case (Some v)
    with c p show ?thesis
      by (auto simp: rw_org_creator_def org_names_def org_hits_def person_value_def
          top_field_def update_conv')
  qed
qed

lemma org_hits_zero_fixed: "org_hits old c = 0 \<Longrightarrow> rw_org_creator old new c = c"
  by (cases c)
    (auto simp: rw_org_creator_def person_value_def top_field_def update_triv
      split: option.splits)

lemma aff_view_rw_org:
  "affiliations_value (rw_org_creator old new c) = affiliations_value c"
  by (simp add: rw_org_creator_def affiliations_value_def top_field_dict_replace)

lemma aff_names_rw_org: "aff_names (rw_org_creator old new c) = aff_names c"
  by (simp add: aff_names_def aff_view_rw_org)

lemma aff_ok_rw_org: "aff_creator_ok (rw_org_creator old new c) = aff_creator_ok c"
  unfolding aff_creator_ok_def aff_view_rw_org by (simp add: rw_org_creator_def)

section \<open>Idempotence of the two rewriting appliers\<close>

lemma store_creators_same: "metadata_ok r \<Longrightarrow> store_creators r (creators_value r) = r"
proof -
  assume ok: "metadata_ok r"
  then obtain kvs where r: "r = JObj kvs" by (cases r) (auto simp: metadata_ok_def)
  show ?thesis
  proof (cases "map_of kvs ''metadata''")
    case None
    with r show ?thesis by (simp add: store_creators_def)
  next
    case (Some m)
    with ok r obtain mk where m: "m = JObj mk" by (cases m) (auto simp: metadata_ok_def)
    with Some r show ?thesis
      by (cases "map_of mk ''creators''")
        (simp_all add: store_creators_def meta_of_def top_field_def creators_value_def
          metadata_field_def update_triv)
  qed
qed

lemma creators_value_store:
  "metadata_ok r \<Longrightarrow>
   creators_value (store_creators r (rewrite_all rw ps (creators_value r)))
     = rewrite_all rw ps (creators_value r)"
proof (cases "metadata_field r ''creators''")
  case None
  assume "metadata_ok r"
  moreover from None have "creators_value r = JList []" by (simp add: creators_value_def)
  ultimately show ?thesis using None by (simp add: store_creators_frame)
next
  case (Some v)
  assume "metadata_ok r"
  with Some show ?thesis by (simp add: store_creators_frame)
qed

lemma aff_quiet_noop: "aff_quiet a r \<Longrightarrow> apply_affiliations r a = Some (r, 0)"
proof (cases "truthy a")
  case False
  then show ?thesis by (simp add: apply_affiliations_pure)
next
  case True
  assume "aff_quiet a r"
  with True have q: "metadata_ok r" "iterable a" "list_all is_obj (iter_items a)"
    "loop_ok aff_creator_ok (aff_pairs a) (creators_value r)"
    "settled aff_names (aff_pairs a) (creators_value r)"
    by (auto simp: aff_quiet_def)
  from rewrite_all_fixed[of aff_hits aff_names rw_aff_creator, OF _ _ q(5)]
  have "rewrite_all rw_aff_creator (aff_pairs a) (creators_value r) = creators_value r"
    "count_all aff_hits rw_aff_creator (aff_pairs a) (creators_value r) = 0"
    by (auto simp: aff_hits_def aff_hits_zero_fixed)
  with True q show ?thesis
    by (simp add: apply_affiliations_pure store_creators_same)
qed

lemma org_quiet_noop: "org_quiet a r \<Longrightarrow> apply_org_authors r a = Some (r, 0)"
proof (cases "truthy a")
  case False
  then show ?thesis by (simp add: apply_org_authors_pure)
next
  case True
  assume "org_quiet a r"
  with True have q: "metadata_ok r" "iterable a" "list_all is_obj (iter_items a)"
    "loop_ok org_creator_ok (org_pairs a) (creators_value r)"
    "settled org_names (org_pairs a) (creators_value r)"
    by (auto simp: org_quiet_def)
  from rewrite_all_fixed[of org_hits org_names rw_org_creator, OF _ _ q(5)]
  have "rewrite_all rw_org_creator (org_pairs a) (creators_value r) = creators_value r"
    "count_all org_hits rw_org_creator (org_pairs a) (creators_value r) = 0"
    by (auto simp: org_hits_def org_hits_zero_fixed)
  with True q show ?thesis
    by (simp add: apply_org_authors_pure store_creators_same)
qed

lemma settled_after:
  assumes names_rw: "\<And>old new c. ok c \<Longrightarrow>
      names (rw old new c) = map (\<lambda>x. if py_eq x old then new else x) (names c)"
    and ok_rw: "\<And>old new c. ok c \<Longrightarrow> ok (rw old new c)"
    and ok_obj: "\<And>c. ok c \<Longrightarrow> is_obj c"
    and "loop_ok ok ps creators" and "no_back_chain [] ps"
  shows "loop_ok ok ps (rewrite_all rw ps creators) \<and>
         settled names ps (rewrite_all rw ps creators)"
proof (cases "ps = []")
  case True
  then show ?thesis by (simp add: loop_ok_def settled_def)
next
  case False
  with assms(4) have it: "iterable creators" "list_all ok (iter_items creators)"
    by (auto simp: loop_ok_def)
  from rewrite_all_ok[of ok rw, OF ok_rw ok_obj it]
  have 1: "loop_ok ok ps (rewrite_all rw ps creators)" by (auto simp: loop_ok_def)
  from rewrite_all_settles[of ok names rw creators "[]" ps, OF names_rw ok_rw ok_obj it _ assms(5)]
  have "settled names ps (rewrite_all rw ps creators)"
    by (auto simp: settled_def)
  with 1 show ?thesis ..
qed

lemma aff_then_quiet:
  assumes "apply_affiliations r a = Some (r', n)" and "no_back_chain [] (aff_pairs a)"
  shows "aff_quiet a r'"
proof (cases "truthy a")
  case False
  then show ?thesis by (simp add: aff_quiet_def)
next
  case True
  with assms(1) have q: "metadata_ok r" "iterable a" "list_all is_obj (iter_items a)"
    "loop_ok aff_creator_ok (aff_pairs a) (creators_value r)"
    and r': "r' = store_creators r (rewrite_all rw_aff_creator (aff_pairs a) (creators_value r))"
    by (auto simp: apply_affiliations_pure split: if_splits)
  from settled_after[of aff_creator_ok aff_names rw_aff_creator, OF aff_names_rw aff_ok_rw
      aff_ok_obj q(4) assms(2)]
  show ?thesis
    using q r' by (simp add: aff_quiet_def creators_value_store store_creators_frame(1))
qed

lemma org_then_quiet:
  assumes "apply_org_authors r a = Some (r', n)" and "no_back_chain [] (org_pairs a)"
  shows "org_quiet a r'"
proof (cases "truthy a")
  case False
  then show ?thesis by (simp add: org_quiet_def)
next
  case True
  with assms(1) have q: "metadata_ok r" "iterable a" "list_all is_obj (iter_items a)"
    "loop_ok org_creator_ok (org_pairs a) (creators_value r)"
    and r': "r' = store_creators r (rewrite_all rw_org_creator (org_pairs a) (creators_value r))"
    by (auto simp: apply_org_authors_pure split: if_splits)
  from settled_after[of org_creator_ok org_names rw_org_creator, OF org_names_rw org_ok_rw
      org_ok_obj q(4) assms(2)]
  show ?thesis
    using q r' by (simp add: org_quiet_def creators_value_store store_creators_frame(1))
qed

lemma list_all_map_cong: "map P xs = map P ys \<Longrightarrow> list_all P xs = list_all P ys"
proof -
  assume "map P xs = map P ys"
  then have "P ` set xs = P ` set ys" by (metis list.set_map)
  then show ?thesis by (auto simp: list_all_iff)
qed

lemma aff_quiet_org:
  assumes "aff_quiet a r" and "apply_org_authors r b = Some (r', n)"
  shows "aff_quiet a r'"
proof (cases "truthy a \<and> truthy b")
  case False
  with assms show ?thesis by (auto simp: aff_quiet_def apply_org_authors_pure)
next
  case True
  let ?c' = "rewrite_all rw_org_creator (org_pairs b) (creators_value r)"
  from True assms(2) have ok: "metadata_ok r" and r': "r' = store_creators r ?c'"
    by (auto simp: apply_org_authors_pure split: if_splits)
  from True assms(1) have q: "iterable a" "list_all is_obj (iter_items a)"
    "loop_ok aff_creator_ok (aff_pairs a) (creators_value r)"
    "settled aff_names (aff_pairs a) (creators_value r)"
    by (auto simp: aff_quiet_def)
  have cv: "creators_value r' = ?c'" using ok r' by (simp add: creators_value_store)
  have "map aff_creator_ok (iter_items ?c') = map aff_creator_ok (iter_items (creators_value r))"
    by (rule rewrite_all_map_cong) (rule aff_ok_rw_org)
  then have 1: "list_all aff_creator_ok (iter_items ?c')
      = list_all aff_creator_ok (iter_items (creators_value r))"
    by (rule list_all_map_cong)
  have "map aff_names (iter_items ?c') = map aff_names (iter_items (creators_value r))"
    by (rule rewrite_all_map_cong) (rule aff_names_rw_org)
  then have 2: "settled aff_names (aff_pairs a) ?c'
      = settled aff_names (aff_pairs a) (creators_value r)"
    by (rule settled_cong)
  from q ok show ?thesis
    by (simp add: aff_quiet_def cv r'[symmetric] store_creators_frame(1)[of r ?c', folded r']
        loop_ok_def 1 2)
qed

lemma creators_value_writes:
  "writes (Meta k) r r' \<Longrightarrow> k \<noteq> ''creators'' \<Longrightarrow> creators_value r' = creators_value r"
  by (simp add: creators_value_def writes_meta_frame)

lemma aff_quiet_writes:
  "aff_quiet a r \<Longrightarrow> writes (Meta k) r r' \<Longrightarrow> k \<noteq> ''creators'' \<Longrightarrow> aff_quiet a r'"
  by (auto simp: aff_quiet_def creators_value_writes writes_meta_frame)

lemma org_quiet_writes:
  "org_quiet a r \<Longrightarrow> writes (Meta k) r r' \<Longrightarrow> k \<noteq> ''creators'' \<Longrightarrow> org_quiet a r'"
  by (auto simp: org_quiet_def creators_value_writes writes_meta_frame)

section \<open>Idempotence of related-identifier addition\<close>

lemma add_related_pure:
  assumes "truthy ids"
  shows "add_related_identifiers r ids =
    (if metadata_ok r then do {
       items \<leftarrow> py_iter (existing_value r);
       exids \<leftarrow> map_option_list existing_id items;
       idents \<leftarrow> py_iter ids;
       (e', added) \<leftarrow> add_loop idents (existing_value r) exids 0;
       Some (put_meta r ''related_identifiers'' e', added)
     } else None)"
proof (cases "metadata_ok r")
  case False
  with assms show ?thesis
    by (cases r)
      (auto simp: add_related_identifiers_def metadata_ok_def split: option.splits json.splits)
next
  case True
  then obtain kvs where r: "r = JObj kvs" by (cases r) (auto simp: metadata_ok_def)
  show ?thesis
  proof (cases "map_of kvs ''metadata''")
    case None
    with assms True r show ?thesis
      by (auto simp: add_related_identifiers_def existing_value_def metadata_field_def
          top_field_def put_meta_def meta_of_def
          intro!: Option.bind_cong split: option.splits)
  next
    case (Some m)
    with True r obtain mk where m: "m = JObj mk" by (cases m) (auto simp: metadata_ok_def)
    with assms True r Some show ?thesis
      by (cases "map_of mk ''related_identifiers''")
        (auto simp: add_related_identifiers_def existing_value_def metadata_field_def
          top_field_def put_meta_def meta_of_def
          intro!: Option.bind_cong split: option.splits)
  qed
qed

lemma map_option_list_snoc:
  "map_option_list f xs = Some ys \<Longrightarrow> f x = Some y \<Longrightarrow>
   map_option_list f (xs @ [x]) = Some (ys @ [y])"
  by (induction xs arbitrary: ys) (auto split: bind_splits)

lemma add_loop_final:
  "add_loop idents e ids a = Some (e', a') \<Longrightarrow> py_iter e = Some items \<Longrightarrow>
   map_option_list existing_id items = Some ids \<Longrightarrow>
   \<exists>items' sfx. py_iter e' = Some items' \<and>
     map_option_list existing_id items' = Some (ids @ sfx) \<and>
     (\<forall>x\<in>set idents. \<exists>i. identifier_of x = Some i \<and>
        (truthy i \<longrightarrow> hashable i \<and> list_ex (py_eq i) (ids @ sfx)))"
proof (induction idents arbitrary: e ids a items)
  case Nil
  then show ?case by auto
next
  case (Cons x idents)
  from Cons.prems(1) obtain ident where ident: "identifier_of x = Some ident"
    by (auto split: bind_splits)
  show ?case
  proof (cases "truthy ident")
    case False
    with Cons.prems(1) ident have rec: "add_loop idents e ids a = Some (e', a')" by simp
    from Cons.IH[OF rec Cons.prems(2,3)] ident False show ?thesis by auto
  next
    case True
    with Cons.prems(1) ident obtain present where
      present: "set_member ident ids = Some present" by (auto split: bind_splits)
    then have h: "hashable ident" and pres: "present = list_ex (py_eq ident) ids"
      by (auto simp: set_member_def split: if_splits)
    show ?thesis
    proof (cases present)
      case pt: True
      with Cons.prems(1) ident True present
      have rec: "add_loop idents e ids a = Some (e', a')" by simp
      from Cons.IH[OF rec Cons.prems(2,3)] obtain items' sfx where
        f: "py_iter e' = Some items'" "map_option_list existing_id items' = Some (ids @ sfx)"
        "\<forall>x\<in>set idents. \<exists>i. identifier_of x = Some i \<and>
          (truthy i \<longrightarrow> hashable i \<and> list_ex (py_eq i) (ids @ sfx))"
        by blast
      from pt pres have "list_ex (py_eq ident) (ids @ sfx)" by (auto simp: list_ex_iff)
      with f ident h show ?thesis by auto
    next
      case pf: False
      with Cons.prems(1) ident True present obtain e1 where
        e1: "list_append e x = Some e1" and
        rec: "add_loop idents e1 (ids @ [ident]) (a + 1) = Some (e', a')"
        by (auto split: bind_splits)
      from e1 obtain xs where xs: "e = JList xs" "e1 = JList (xs @ [x])"
        by (cases e) auto
      with Cons.prems(2) have "items = xs" by simp
      have exx: "existing_id x = Some ident" using ident h by (simp add: existing_id_def)
      from Cons.prems(3) \<open>items = xs\<close>
      have exs: "map_option_list existing_id xs = Some ids" by simp
      have ex1: "map_option_list existing_id (xs @ [x]) = Some (ids @ [ident])"
        by (rule map_option_list_snoc[OF exs exx])
      have it1: "py_iter e1 = Some (xs @ [x])" using xs by simp
      from Cons.IH[OF rec it1 ex1] obtain items' sfx where
        f: "py_iter e' = Some items'"
        "map_option_list existing_id items' = Some ((ids @ [ident]) @ sfx)"
        "\<forall>x\<in>set idents. \<exists>i. identifier_of x = Some i \<and>
          (truthy i \<longrightarrow> hashable i \<and> list_ex (py_eq i) ((ids @ [ident]) @ sfx))"
        by blast
      have "list_ex (py_eq ident) (ids @ ident # sfx)"
        using py_eq_refl_hashable[OF h] by (simp add: list_ex_iff)
      with f ident h show ?thesis
        by (intro exI[of _ items'] exI[of _ "ident # sfx"]) auto
    qed
  qed
qed

lemma add_loop_all_present:
  "\<forall>x\<in>set idents. \<exists>i. identifier_of x = Some i \<and>
     (truthy i \<longrightarrow> hashable i \<and> list_ex (py_eq i) ids) \<Longrightarrow>
   add_loop idents e ids a = Some (e, a)"
  by (induction idents) (auto simp: set_member_def)

lemma put_meta_idem: "metadata_ok r \<Longrightarrow> put_meta (put_meta r k v) k v = put_meta r k v"
  by (cases r) (auto simp: put_meta_def meta_of_def top_field_def update_conv' metadata_ok_def)

lemma related_then_noop:
  assumes "add_related_identifiers r ids = Some (r', n)"
  shows "add_related_identifiers r' ids = Some (r', 0)"
proof (cases "truthy ids")
  case False
  with assms show ?thesis by (simp add: add_related_identifiers_def)
next
  case True
  note pure = add_related_pure[OF True]
  from assms have ok: "metadata_ok r" by (simp add: pure split: if_splits)
  with assms obtain items exids idents e' where
    it: "py_iter (existing_value r) = Some items" and
    ex: "map_option_list existing_id items = Some exids" and
    idn: "py_iter ids = Some idents" and
    loop: "add_loop idents (existing_value r) exids 0 = Some (e', n)" and
    r': "r' = put_meta r ''related_identifiers'' e'"
    by (auto simp: pure split: bind_splits)
  from add_loop_final[OF loop it ex] obtain items' sfx where
    f: "py_iter e' = Some items'" "map_option_list existing_id items' = Some (exids @ sfx)"
    "\<forall>x\<in>set idents. \<exists>i. identifier_of x = Some i \<and>
      (truthy i \<longrightarrow> hashable i \<and> list_ex (py_eq i) (exids @ sfx))"
    by blast
  have ok': "metadata_ok r'" using ok r' by (simp add: put_meta_frame)
  have ev: "existing_value r' = e'" using ok r' by (simp add: existing_value_def put_meta_frame)
  have same: "put_meta r' ''related_identifiers'' e' = r'"
    using ok r' by (simp add: put_meta_idem)
  show ?thesis
    by (simp add: pure ok' ev f(1,2) idn add_loop_all_present[OF f(3)] same)
qed

section \<open>The steps of the orchestrator as applier calls\<close>

lemma silent_stable: "silent step \<Longrightarrow> stable step r"
  by (simp add: silent_def stable_def)

lemma performs_result:
  "performs step call fired \<Longrightarrow> step s = Some s' \<Longrightarrow> \<exists>x. call (doc s) = Some (doc s', x)"
  unfolding performs_def
  by (erule allE[of _ s], cases "call (doc s)") auto

lemma performs_stable:
  assumes "performs step call fired" "call r = Some (r, x)" "\<not> fired x"
  shows "stable step r"
  unfolding stable_def
proof (intro allI impI)
  fix s :: state
  assume "doc s = r"
  with assms(1)[unfolded performs_def, rule_format, of s] assms(2,3)
  show "\<exists>s'. step s = Some s' \<and> quiet s s'" by (auto simp: quiet_def)
qed

lemma stable_step:
  "stable step r \<Longrightarrow> doc s = r \<Longrightarrow> changed s = False \<Longrightarrow> actions s = [] \<Longrightarrow>
   \<exists>s'. step s = Some s' \<and> doc s' = r \<and> changed s' = False \<and> actions s' = []"
  by (auto simp: stable_def quiet_def)

lemma step_writes:
  assumes "silent step \<or> performs step call fired"
    and "\<And>r r' x. call r = Some (r', x) \<Longrightarrow> writes sl r r'"
    and "step s = Some s'"
  shows "writes sl (doc s) (doc s')"
  using assms(1)
proof
  assume "silent step"
  then obtain s'' where "step s = Some s''" "doc s'' = doc s"
    by (auto simp: silent_def quiet_def)
  with assms(3) show ?thesis by simp
next
  assume "performs step call fired"
  from performs_result[OF this assms(3)] assms(2) show ?thesis by blast
qed

lemma wf_json_get:
  "wf_json d \<Longrightarrow> wf_json dflt \<Longrightarrow> dict_get d k dflt = Some v \<Longrightarrow> wf_json v"
  using wf_json_field[of d k v] by (cases d) (auto simp: top_field_def split: option.splits)

lemma title_step_shape:
  assumes "title_step report c st = Some st'"
  shows "silent (title_step report c) \<or>
         (\<exists>x. (wf_json c \<longrightarrow> wf_json x) \<and>
              performs (title_step report c) (\<lambda>r. overwrite ''title'' r x) (\<lambda>b. b))"
proof -
  from assms obtain present where p: "py_contains c ''title'' = Some present"
    by (auto simp: title_step_def split: bind_splits)
  show ?thesis
  proof (cases present)
    case False
    with p show ?thesis by (simp add: silent_def quiet_def title_step_def)
  next
    case True
    with assms p obtain gate where
      g: "dict_get report ''title_corrected'' (JBool True) = Some gate"
      by (auto simp: title_step_def split: bind_splits)
    show ?thesis
    proof (cases "truthy gate")
      case False
      with p True g show ?thesis by (simp add: silent_def quiet_def title_step_def)
    next
      case tg: True
      with assms p True g obtain x where x: "dict_get c ''title'' JNull = Some x"
        by (auto simp: title_step_def split: bind_splits)
      have "wf_json c \<longrightarrow> wf_json x" using wf_json_get[OF _ _ x] by simp
      moreover have "performs (title_step report c) (\<lambda>r. overwrite ''title'' r x) (\<lambda>b. b)"
        using p True g tg x
        by (auto simp: performs_def title_step_def appliers_overwrite split: option.splits)
      ultimately show ?thesis by blast
    qed
  qed
qed

lemma abstract_step_shape:
  assumes "abstract_step report c st = Some st'"
  shows "silent (abstract_step report c) \<or>
         (\<exists>x. (wf_json c \<longrightarrow> wf_json x) \<and>
              performs (abstract_step report c) (\<lambda>r. overwrite ''description'' r x) (\<lambda>b. b))"
proof -
  from assms obtain present where p: "py_contains c ''abstract'' = Some present"
    by (auto simp: abstract_step_def split: bind_splits)
  show ?thesis
  proof (cases present)
    case False
    with p show ?thesis by (simp add: silent_def quiet_def abstract_step_def)
  next
    case True
    with assms p obtain gate where
      g: "dict_get report ''abstract_corrected'' (JBool True) = Some gate"
      by (auto simp: abstract_step_def split: bind_splits)
    show ?thesis
    proof (cases "truthy gate")
      case False
      with p True g show ?thesis by (simp add: silent_def quiet_def abstract_step_def)
    next
      case tg: True
      with assms p True g obtain x where x: "dict_get c ''abstract'' JNull = Some x"
        by (auto simp: abstract_step_def split: bind_splits)
      have "wf_json c \<longrightarrow> wf_json x" using wf_json_get[OF _ _ x] by simp
      moreover have
        "performs (abstract_step report c) (\<lambda>r. overwrite ''description'' r x) (\<lambda>b. b)"
        using p True g tg x
        by (auto simp: performs_def abstract_step_def appliers_overwrite split: option.splits)
      ultimately show ?thesis by blast
    qed
  qed
qed

lemma date_step_shape:
  assumes "date_step report c st = Some st'"
  shows "silent (date_step report c) \<or>
         (\<exists>x. (wf_json c \<longrightarrow> wf_json x) \<and>
              performs (date_step report c) (\<lambda>r. overwrite ''publication_date'' r x) (\<lambda>b. b))"
proof -
  from assms obtain present where p: "py_contains c ''publication_date'' = Some present"
    by (auto simp: date_step_def split: bind_splits)
  show ?thesis
  proof (cases present)
    case False
    with p show ?thesis by (simp add: silent_def quiet_def date_step_def)
  next
    case True
    with assms p obtain gate where
      g: "dict_get report ''date_corrected'' (JBool True) = Some gate"
      by (auto simp: date_step_def split: bind_splits)
    show ?thesis
    proof (cases "truthy gate")
      case False
      with p True g show ?thesis by (simp add: silent_def quiet_def date_step_def)
    next
      case tg: True
      with assms p True g obtain x where x: "dict_get c ''publication_date'' JNull = Some x"
        by (auto simp: date_step_def split: bind_splits)
      have "wf_json c \<longrightarrow> wf_json x" using wf_json_get[OF _ _ x] by simp
      moreover have
        "performs (date_step report c) (\<lambda>r. overwrite ''publication_date'' r x) (\<lambda>b. b)"
        using p True g tg x
        by (auto simp: performs_def date_step_def appliers_overwrite split: option.splits)
      ultimately show ?thesis by blast
    qed
  qed
qed

lemma descriptor_step_shape:
  assumes "descriptor_step report c st = Some st'"
  shows "silent (descriptor_step report c) \<or>
         (\<exists>ds. performs (descriptor_step report c) (\<lambda>r. apply_descriptor_deletions r ds)
                 (\<lambda>b. b))"
proof -
  from assms obtain present where p: "py_contains c ''delete_descriptor'' = Some present"
    by (auto simp: descriptor_step_def split: bind_splits)
  show ?thesis
  proof (cases present)
    case False
    with p show ?thesis by (simp add: silent_def quiet_def descriptor_step_def)
  next
    case True
    with assms p obtain gate where
      g: "dict_get report ''descriptor_corrected'' (JBool True) = Some gate"
      by (auto simp: descriptor_step_def split: bind_splits)
    show ?thesis
    proof (cases "truthy gate")
      case False
      with p True g show ?thesis by (simp add: silent_def quiet_def descriptor_step_def)
    next
      case tg: True
      with assms p True g obtain d where d: "dict_get c ''delete_descriptor'' JNull = Some d"
        by (auto simp: descriptor_step_def split: bind_splits)
      define deletions where "deletions = (case d of JStr s \<Rightarrow> JList [JStr s] | _ \<Rightarrow> d)"
      have "performs (descriptor_step report c)
              (\<lambda>r. apply_descriptor_deletions r (if truthy deletions then deletions else JList []))
              (\<lambda>b. b)"
        using p True g tg d unfolding deletions_def
        by (auto simp: performs_def descriptor_step_def Let_def split: option.splits)
      then show ?thesis by blast
    qed
  qed
qed

lemma report_list_get:
  "dict_get report k (JList []) = Some a \<Longrightarrow>
   (if truthy a then a else JList []) = report_list report k"
  by (cases report) (auto simp: report_list_def top_field_def split: option.splits)

lemma affiliation_step_shape:
  assumes "affiliation_step report st = Some st'"
  shows "silent (affiliation_step report) \<or>
         performs (affiliation_step report)
           (\<lambda>r. apply_affiliations r (report_list report ''affiliation_corrections''))
           (\<lambda>n. 0 < n)"
proof -
  from assms obtain a gate where
    a: "dict_get report ''affiliation_corrections'' (JList []) = Some a" and
    g: "dict_get report ''affiliation_correction_recommended'' (JBool True) = Some gate"
    by (auto simp: affiliation_step_def Let_def split: bind_splits)
  note l = report_list_get[OF a]
  show ?thesis
  proof (cases "truthy gate")
    case False
    with a g show ?thesis
      by (simp add: silent_def quiet_def affiliation_step_def Let_def)
  next
    case True
    have "performs (affiliation_step report)
           (\<lambda>r. apply_affiliations r (report_list report ''affiliation_corrections''))
           (\<lambda>n. 0 < n)"
      using a g True l
      by (auto simp: performs_def affiliation_step_def Let_def split: option.splits)
    then show ?thesis ..
  qed
qed

lemma org_step_shape:
  assumes "org_step report st = Some st'"
  shows "silent (org_step report) \<or>
         performs (org_step report)
           (\<lambda>r. apply_org_authors r (report_list report ''organizational_author_corrections''))
           (\<lambda>n. 0 < n)"
proof -
  from assms obtain a where
    a: "dict_get report ''organizational_author_corrections'' (JList []) = Some a"
    by (auto simp: org_step_def Let_def split: bind_splits)
  note l = report_list_get[OF a]
  show ?thesis
  proof (cases "truthy a")
    case False
    with a show ?thesis
      by (simp add: silent_def quiet_def org_step_def Let_def)
  next
    case True
    have "performs (org_step report)
           (\<lambda>r. apply_org_authors r (report_list report ''organizational_author_corrections''))
           (\<lambda>n. 0 < n)"
      using a True l
      by (auto simp: performs_def org_step_def Let_def split: option.splits)
    then show ?thesis ..
  qed
qed

lemma related_step_shape:
  "silent (related_step c) \<or>
   performs (related_step c) (\<lambda>r. add_related_identifiers r (as_list (related_value c)))
     (\<lambda>n. 0 < n)"
proof (cases "truthy (related_value c)")
  case False
  then show ?thesis by (simp add: silent_def quiet_def related_step_falsy)
next
  case True
  then have "performs (related_step c)
      (\<lambda>r. add_related_identifiers r (as_list (related_value c))) (\<lambda>n. 0 < n)"
    by (auto simp: performs_def related_step_truthy split: option.splits)
  then show ?thesis ..
qed

section \<open>A second run of the orchestrator\<close>

lemma abstract_step_writes:
  assumes "abstract_step report c s = Some s'"
  shows "writes (Meta ''description'') (doc s) (doc s')"
proof -
  from abstract_step_shape[OF assms] consider "silent (abstract_step report c)"
    | x where "performs (abstract_step report c) (\<lambda>r. overwrite ''description'' r x) (\<lambda>b. b)"
    by blast
  then show ?thesis
  proof cases
    case 1
    then show ?thesis
      by (rule step_writes[OF disjI1, where call = "\<lambda>r. overwrite ''description'' r JNull"])
        (auto intro: overwrite_writes assms)
  next
    case 2
    then show ?thesis
      by (rule step_writes[OF disjI2]) (auto intro: overwrite_writes assms)
  qed
qed

lemma date_step_writes:
  assumes "date_step report c s = Some s'"
  shows "writes (Meta ''publication_date'') (doc s) (doc s')"
proof -
  from date_step_shape[OF assms] consider "silent (date_step report c)"
    | x where "performs (date_step report c) (\<lambda>r. overwrite ''publication_date'' r x) (\<lambda>b. b)"
    by blast
  then show ?thesis
  proof cases
    case 1
    then show ?thesis
      by (rule step_writes[OF disjI1, where call = "\<lambda>r. overwrite ''publication_date'' r JNull"])
        (auto intro: overwrite_writes assms)
  next
    case 2
    then show ?thesis
      by (rule step_writes[OF disjI2]) (auto intro: overwrite_writes assms)
  qed
qed

lemma descriptor_step_writes:
  assumes "descriptor_step report c s = Some s'"
  shows "writes Descriptors (doc s) (doc s')"
proof -
  from descriptor_step_shape[OF assms] consider "silent (descriptor_step report c)"
    | ds where "performs (descriptor_step report c) (\<lambda>r. apply_descriptor_deletions r ds) (\<lambda>b. b)"
    by blast
  then show ?thesis
  proof cases
    case 1
    then show ?thesis
      by (rule step_writes[OF disjI1, where call = "\<lambda>r. apply_descriptor_deletions r JNull"])
        (auto intro: descriptor_writes assms)
  next
    case 2
    then show ?thesis
      by (rule step_writes[OF disjI2]) (auto intro: descriptor_writes assms)
  qed
qed

lemma affiliation_step_writes:
  assumes "affiliation_step report s = Some s'"
  shows "writes (Meta ''creators'') (doc s) (doc s')"
  by (rule step_writes[OF affiliation_step_shape[OF assms]])
    (auto intro: affiliations_writes assms)

lemma org_step_writes:
  assumes "org_step report s = Some s'"
  shows "writes (Meta ''creators'') (doc s) (doc s')"
  by (rule step_writes[OF org_step_shape[OF assms]])
    (auto intro: org_authors_writes assms)

lemma related_step_writes:
  assumes "related_step c s = Some s'"
  shows "writes (Meta ''related_identifiers'') (doc s) (doc s')"
  by (rule step_writes[OF related_step_shape])
    (auto intro: related_writes assms)

lemma writes_list_cons: "writes s r m \<Longrightarrow> writes_list ss m r' \<Longrightarrow> writes_list (s # ss) r r'"
  by auto

lemma noop_scalar_writes_list:
  "noop_scalar k x r \<Longrightarrow> writes_list ss r r' \<Longrightarrow> Meta k \<notin> set ss \<Longrightarrow> noop_scalar k x r'"
proof (induction ss arbitrary: r)
  case Nil
  then show ?case by simp
next
  case (Cons s ss)
  from Cons.prems(2) obtain m where m: "writes s r m" "writes_list ss m r'" by auto
  have "noop_scalar k x m"
  proof (cases s)
    case (Meta k')
    with Cons.prems(3) have "k' \<noteq> k" by auto
    with Cons.prems(1) m(1) Meta show ?thesis by (auto intro: noop_scalar_writes_meta)
  next
    case Descriptors
    with Cons.prems(1) m(1) show ?thesis by (auto intro: noop_scalar_writes_descriptors)
  qed
  from Cons.IH[OF this m(2)] Cons.prems(3) show ?case by simp
qed

lemma scalar_stable:
  assumes shape: "silent step \<or>
      (\<exists>x. (wf_json c \<longrightarrow> wf_json x) \<and> performs step (\<lambda>r. overwrite k r x) (\<lambda>b. b))"
    and step: "step st = Some st'" and wf: "wf_json c"
    and later: "writes_list ss (doc st') r" "Meta k \<notin> set ss"
  shows "stable step r"
  using shape
proof
  assume "silent step"
  then show ?thesis by (rule silent_stable)
next
  assume "\<exists>x. (wf_json c \<longrightarrow> wf_json x) \<and> performs step (\<lambda>r. overwrite k r x) (\<lambda>b. b)"
  then obtain x where x: "wf_json x" and p: "performs step (\<lambda>r. overwrite k r x) (\<lambda>b. b)"
    using wf by blast
  from performs_result[OF p step] obtain b where "overwrite k (doc st) x = Some (doc st', b)"
    by blast
  from overwrite_then_noop[OF this x] have "noop_scalar k x (doc st')" .
  from noop_scalar_writes_list[OF this later] have "overwrite k r x = Some (r, False)"
    by (simp add: overwrite_noop_iff)
  from performs_stable[OF p this] show ?thesis by simp
qed

lemma descriptor_noop_writes_list:
  "apply_descriptor_deletions r ds = Some (r, False) \<Longrightarrow> writes_list ss r r' \<Longrightarrow>
   Descriptors \<notin> set ss \<Longrightarrow> apply_descriptor_deletions r' ds = Some (r', False)"
proof (induction ss arbitrary: r)
  case Nil
  then show ?case by simp
next
  case (Cons s ss)
  from Cons.prems(2) obtain m where m: "writes s r m" "writes_list ss m r'" by auto
  from Cons.prems(3) obtain k where "s = Meta k" by (cases s) auto
  with m(1) Cons.prems(1) have "apply_descriptor_deletions m ds = Some (m, False)"
    by (auto intro: descriptor_noop_writes_meta)
  from Cons.IH[OF this m(2)] Cons.prems(3) show ?case by simp
qed

lemma descriptor_stable:
  assumes step: "descriptor_step report c st = Some st'"
    and later: "writes_list ss (doc st') r" "Descriptors \<notin> set ss"
  shows "stable (descriptor_step report c) r"
proof -
  from descriptor_step_shape[OF step] consider "silent (descriptor_step report c)"
    | ds where "performs (descriptor_step report c) (\<lambda>r. apply_descriptor_deletions r ds) (\<lambda>b. b)"
    by blast
  then show ?thesis
  proof cases
    case 1
    then show ?thesis by (rule silent_stable)
  next
    case 2
    from performs_result[OF 2 step] obtain b where
      "apply_descriptor_deletions (doc st) ds = Some (doc st', b)" by blast
    from descriptor_then_noop[OF this]
    have "apply_descriptor_deletions (doc st') ds = Some (doc st', False)" .
    from descriptor_noop_writes_list[OF this later]
    have "apply_descriptor_deletions r ds = Some (r, False)" .
    from performs_stable[OF 2 this] show ?thesis by simp
  qed
qed

lemma affiliation_step_gate:
  assumes "affiliation_step report st = Some st'"
  shows "silent (affiliation_step report) \<or>
         (applied_aff_pairs report = aff_pairs (report_list report ''affiliation_corrections'') \<and>
          performs (affiliation_step report)
            (\<lambda>r. apply_affiliations r (report_list report ''affiliation_corrections''))
            (\<lambda>n. 0 < n))"
proof -
  from assms obtain a gate where
    a: "dict_get report ''affiliation_corrections'' (JList []) = Some a" and
    g: "dict_get report ''affiliation_correction_recommended'' (JBool True) = Some gate"
    by (auto simp: affiliation_step_def Let_def split: bind_splits)
  show ?thesis
  proof (cases "truthy gate")
    case False
    with a g have "silent (affiliation_step report)"
      by (simp add: silent_def quiet_def affiliation_step_def Let_def)
    then show ?thesis ..
  next
    case True
    with g have "applied_aff_pairs report
        = aff_pairs (report_list report ''affiliation_corrections'')"
      by (cases report) (auto simp: applied_aff_pairs_def top_field_def split: option.splits)
    moreover have "performs (affiliation_step report)
            (\<lambda>r. apply_affiliations r (report_list report ''affiliation_corrections''))
            (\<lambda>n. 0 < n)"
      using a g True report_list_get[OF a]
      by (auto simp: performs_def affiliation_step_def Let_def split: option.splits)
    ultimately show ?thesis by blast
  qed
qed

lemma affiliation_stable:
  assumes aff: "affiliation_step report st4 = Some st5"
    and org: "org_step report st5 = Some st6"
    and rel: "writes (Meta ''related_identifiers'') (doc st6) r"
    and nc0: "no_back_chain [] (applied_aff_pairs report)"
  shows "stable (affiliation_step report) r"
  using affiliation_step_gate[OF aff]
proof
  assume "silent (affiliation_step report)"
  then show ?thesis by (rule silent_stable)
next
  let ?a = "report_list report ''affiliation_corrections''"
  let ?b = "report_list report ''organizational_author_corrections''"
  assume "applied_aff_pairs report = aff_pairs ?a \<and>
          performs (affiliation_step report) (\<lambda>r. apply_affiliations r ?a) (\<lambda>n. 0 < n)"
  with nc0 have nc: "no_back_chain [] (aff_pairs ?a)"
    and p: "performs (affiliation_step report) (\<lambda>r. apply_affiliations r ?a) (\<lambda>n. 0 < n)"
    by simp_all
  from performs_result[OF p aff] obtain n where
    "apply_affiliations (doc st4) ?a = Some (doc st5, n)" by blast
  from aff_then_quiet[OF this nc] have q5: "aff_quiet ?a (doc st5)" .
  have q6: "aff_quiet ?a (doc st6)"
    using org_step_shape[OF org]
  proof
    assume "silent (org_step report)"
    then obtain s where "org_step report st5 = Some s" "doc s = doc st5"
      by (auto simp: silent_def quiet_def)
    with org q5 show ?thesis by simp
  next
    assume "performs (org_step report) (\<lambda>r. apply_org_authors r ?b) (\<lambda>n. 0 < n)"
    from performs_result[OF this org] obtain m where
      "apply_org_authors (doc st5) ?b = Some (doc st6, m)" by blast
    from aff_quiet_org[OF q5 this] show ?thesis .
  qed
  from aff_quiet_writes[OF q6 rel] have "aff_quiet ?a r" by simp
  from aff_quiet_noop[OF this] have "apply_affiliations r ?a = Some (r, 0)" .
  from performs_stable[OF p this] show ?thesis by simp
qed

lemma org_stable:
  assumes org: "org_step report st5 = Some st6"
    and rel: "writes (Meta ''related_identifiers'') (doc st6) r"
    and nc: "no_back_chain [] (org_pairs (report_list report ''organizational_author_corrections''))"
  shows "stable (org_step report) r"
  using org_step_shape[OF org]
proof
  assume "silent (org_step report)"
  then show ?thesis by (rule silent_stable)
next
  let ?b = "report_list report ''organizational_author_corrections''"
  assume p: "performs (org_step report) (\<lambda>r. apply_org_authors r ?b) (\<lambda>n. 0 < n)"
  from performs_result[OF p org] obtain n where
    "apply_org_authors (doc st5) ?b = Some (doc st6, n)" by blast
  from org_then_quiet[OF this nc] have "org_quiet ?b (doc st6)" .
  from org_quiet_writes[OF this rel] have "org_quiet ?b r" by simp
  from org_quiet_noop[OF this] have "apply_org_authors r ?b = Some (r, 0)" .
  from performs_stable[OF p this] show ?thesis by simp
qed

lemma related_stable:
  assumes "related_step c st6 = Some st7"
  shows "stable (related_step c) (doc st7)"
  using related_step_shape[of c]
proof
  assume "silent (related_step c)"
  then show ?thesis by (rule silent_stable)
next
  let ?ids = "as_list (related_value c)"
  assume p: "performs (related_step c) (\<lambda>r. add_related_identifiers r ?ids) (\<lambda>n. 0 < n)"
  from performs_result[OF p assms] obtain n where
    "add_related_identifiers (doc st6) ?ids = Some (doc st7, n)" by blast
  from related_then_noop[OF this]
  have "add_related_identifiers (doc st7) ?ids = Some (doc st7, 0)" .
  from performs_stable[OF p this] show ?thesis by simp
qed

lemma apply_corrections_twice:
  assumes run: "apply_corrections r report = Some (r', chg, acts, un)"
    and wf: "wf_json report"
    and nc_a: "no_back_chain [] (applied_aff_pairs report)"
    and nc_o: "no_back_chain []
                 (org_pairs (report_list report ''organizational_author_corrections''))"
  shows "\<exists>un'. apply_corrections r' report = Some (r', False, [], un')"
proof -
  from run obtain c0 where c0: "dict_get report ''corrections'' (JObj []) = Some c0"
    by (auto simp: apply_corrections_def split: bind_splits)
  define c where "c = (if truthy c0 then c0 else JObj [])"
  have wfc: "wf_json c" using wf_json_get[OF wf _ c0] by (simp add: c_def)
  let ?s0 = "\<lparr>doc = r, changed = False, actions = [], unapplied = []\<rparr>"
  from run c0 obtain st1 st2 st3 st4 st5 st6 st7 where
    s1: "title_step report c ?s0 = Some st1" and
    s2: "abstract_step report c st1 = Some st2" and
    s3: "date_step report c st2 = Some st3" and
    s4: "descriptor_step report c st3 = Some st4" and
    s5: "affiliation_step report st4 = Some st5" and
    s6: "org_step report st5 = Some st6" and
    s7: "related_step c st6 = Some st7" and
    r': "r' = doc st7"
    by (auto simp: apply_corrections_def Let_def c_def split: bind_splits)
  note w2 = abstract_step_writes[OF s2] and w3 = date_step_writes[OF s3]
    and w4 = descriptor_step_writes[OF s4] and w5 = affiliation_step_writes[OF s5]
    and w6 = org_step_writes[OF s6] and w7 = related_step_writes[OF s7]
  have l6: "writes_list [Meta ''related_identifiers''] (doc st6) r'"
    using w7 r' by simp
  have l5: "writes_list [Meta ''creators'', Meta ''related_identifiers''] (doc st5) r'"
    by (rule writes_list_cons[OF w6 l6])
  have l4: "writes_list [Meta ''creators'', Meta ''creators'', Meta ''related_identifiers'']
      (doc st4) r'"
    by (rule writes_list_cons[OF w5 l5])
  have l3: "writes_list [Descriptors,
      Meta ''creators'', Meta ''creators'', Meta ''related_identifiers''] (doc st3) r'"
    by (rule writes_list_cons[OF w4 l4])
  have l2: "writes_list [Meta ''publication_date'', Descriptors,
      Meta ''creators'', Meta ''creators'', Meta ''related_identifiers''] (doc st2) r'"
    by (rule writes_list_cons[OF w3 l3])
  have l1: "writes_list [Meta ''description'', Meta ''publication_date'', Descriptors,
      Meta ''creators'', Meta ''creators'', Meta ''related_identifiers''] (doc st1) r'"
    by (rule writes_list_cons[OF w2 l2])
  have t1: "stable (title_step report c) r'"
    by (rule scalar_stable[OF title_step_shape[OF s1] s1 wfc l1]) simp
  have t2: "stable (abstract_step report c) r'"
    by (rule scalar_stable[OF abstract_step_shape[OF s2] s2 wfc l2]) simp
  have t3: "stable (date_step report c) r'"
    by (rule scalar_stable[OF date_step_shape[OF s3] s3 wfc l3]) simp
  have t4: "stable (descriptor_step report c) r'"
    by (rule descriptor_stable[OF s4 l4]) simp
  have t5: "stable (affiliation_step report) r'"
    using affiliation_stable[OF s5 s6 _ nc_a] w7 r' by simp
  have t6: "stable (org_step report) r'"
    using org_stable[OF s6 _ nc_o] w7 r' by simp
  have t7: "stable (related_step c) r'"
    using related_stable[OF s7] r' by simp
  let ?u0 = "\<lparr>doc = r', changed = False, actions = [], unapplied = []\<rparr>"
  from stable_step[OF t1, of ?u0] obtain u1 where
    u1: "title_step report c ?u0 = Some u1" "doc u1 = r'" "changed u1 = False" "actions u1 = []"
    by auto
  from stable_step[OF t2 u1(2-4)] obtain u2 where
    u2: "abstract_step report c u1 = Some u2" "doc u2 = r'" "changed u2 = False" "actions u2 = []"
    by auto
  from stable_step[OF t3 u2(2-4)] obtain u3 where
    u3: "date_step report c u2 = Some u3" "doc u3 = r'" "changed u3 = False" "actions u3 = []"
    by auto
  from stable_step[OF t4 u3(2-4)] obtain u4 where
    u4: "descriptor_step report c u3 = Some u4" "doc u4 = r'" "changed u4 = False"
      "actions u4 = []"
    by auto
  from stable_step[OF t5 u4(2-4)] obtain u5 where
    u5: "affiliation_step report u4 = Some u5" "doc u5 = r'" "changed u5 = False"
      "actions u5 = []"
    by auto
  from stable_step[OF t6 u5(2-4)] obtain u6 where
    u6: "org_step report u5 = Some u6" "doc u6 = r'" "changed u6 = False" "actions u6 = []"
    by auto
  from stable_step[OF t7 u6(2-4)] obtain u7 where
    u7: "related_step c u6 = Some u7" "doc u7 = r'" "changed u7 = False" "actions u7 = []"
    by auto
  have "apply_corrections r' report = Some (r', False, [], unapplied u7)"
    using c0 u1 u2 u3 u4 u5 u6 u7 by (simp add: apply_corrections_def Let_def c_def[symmetric])
  then show ?thesis ..
qed

section \<open>Idempotence of the orchestrator\<close>

text \<open>
  C1, amended. The values are those of the model: JSON without floating-point numbers
  (with \<^verbatim>\<open>NaN\<close>, which is not equal to itself, a correction is applied again on every
  run). Let \<open>apply_corrections\<close> return on a record and a report (a JSON document: the
  keys of each dict distinct), and let the corrections that rewrite names not chain
  backwards: among the organizational-author pairs with both sides truthy, and among the
  affiliation pairs with both sides truthy when \<open>affiliation_correction_recommended\<close>
  is absent or truthy, no recommended value equals the old value of its own pair or of an
  earlier pair. Then applying the same report to the corrected record returns, with the
  record as it is, \<open>changed\<close> false and no action: every applier is a no-op on its own
  output. Only the unapplied notes may be issued again.
\<close>

theorem apply_corrections_idempotent:
  "apply_corrections r report = Some (r1, chg, acts, un) \<Longrightarrow> wf_json report \<Longrightarrow>
   no_back_chain [] (applied_aff_pairs report) \<Longrightarrow>
   no_back_chain [] (org_pairs (report_list report ''organizational_author_corrections'')) \<Longrightarrow>
   \<exists>un'. apply_corrections r1 report = Some (r1, False, [], un')"
  by (rule apply_corrections_twice)

theorem apply_corrections_idempotent_witness:
  "wf_json (JObj [(''corrections'', JObj [(''title'', JStr ''T'')]),
            (''affiliation_corrections'',
             JList [JObj [(''old_affiliation'', JStr ''A''),
                          (''recommended_affiliation'', JStr ''B'')],
                    JObj [(''old_affiliation'', JStr ''B''),
                          (''recommended_affiliation'', JStr ''C'')]])]) \<and>
   no_back_chain [] (applied_aff_pairs
     (JObj [(''corrections'', JObj [(''title'', JStr ''T'')]),
            (''affiliation_corrections'',
             JList [JObj [(''old_affiliation'', JStr ''A''),
                          (''recommended_affiliation'', JStr ''B'')],
                    JObj [(''old_affiliation'', JStr ''B''),
                          (''recommended_affiliation'', JStr ''C'')]])])) \<and>
   no_back_chain [] (org_pairs (report_list
     (JObj [(''corrections'', JObj [(''title'', JStr ''T'')]),
            (''affiliation_corrections'',
             JList [JObj [(''old_affiliation'', JStr ''A''),
                          (''recommended_affiliation'', JStr ''B'')],
                    JObj [(''old_affiliation'', JStr ''B''),
                          (''recommended_affiliation'', JStr ''C'')]])])
     ''organizational_author_corrections'')) \<and>
   apply_corrections
     (JObj [(''metadata'', JObj [(''title'', JStr ''t''), (''creators'',
              JList [JObj [(''affiliations'',
                JList [JObj [(''name'', JStr ''A'')], JObj [(''name'', JStr ''B'')]])]])])])
     (JObj [(''corrections'', JObj [(''title'', JStr ''T'')]),
            (''affiliation_corrections'',
             JList [JObj [(''old_affiliation'', JStr ''A''),
                          (''recommended_affiliation'', JStr ''B'')],
                    JObj [(''old_affiliation'', JStr ''B''),
                          (''recommended_affiliation'', JStr ''C'')]])])
   = Some (JObj [(''metadata'', JObj [(''title'', JStr ''T''), (''creators'',
              JList [JObj [(''affiliations'',
                JList [JObj [(''name'', JStr ''C'')], JObj [(''name'', JStr ''C'')]])]])])],
           True, [''Title corrected'', ''Affiliations corrected (3)''], []) \<and>
   (\<exists>un'. apply_corrections
     (JObj [(''metadata'', JObj [(''title'', JStr ''T''), (''creators'',
              JList [JObj [(''affiliations'',
                JList [JObj [(''name'', JStr ''C'')], JObj [(''name'', JStr ''C'')]])]])])])
     (JObj [(''corrections'', JObj [(''title'', JStr ''T'')]),
            (''affiliation_corrections'',
             JList [JObj [(''old_affiliation'', JStr ''A''),
                          (''recommended_affiliation'', JStr ''B'')],
                    JObj [(''old_affiliation'', JStr ''B''),
                          (''recommended_affiliation'', JStr ''C'')]])])
   = Some (JObj [(''metadata'', JObj [(''title'', JStr ''T''), (''creators'',
              JList [JObj [(''affiliations'',
                JList [JObj [(''name'', JStr ''C'')], JObj [(''name'', JStr ''C'')]])]])])],
           False, [], un'))"
proof -
  let ?rep = "JObj [(''corrections'', JObj [(''title'', JStr ''T'')]),
            (''affiliation_corrections'',
             JList [JObj [(''old_affiliation'', JStr ''A''),
                          (''recommended_affiliation'', JStr ''B'')],
                    JObj [(''old_affiliation'', JStr ''B''),
                          (''recommended_affiliation'', JStr ''C'')]])]"
  let ?r = "JObj [(''metadata'', JObj [(''title'', JStr ''t''), (''creators'',
              JList [JObj [(''affiliations'',
                JList [JObj [(''name'', JStr ''A'')], JObj [(''name'', JStr ''B'')]])]])])]"
  let ?r1 = "JObj [(''metadata'', JObj [(''title'', JStr ''T''), (''creators'',
              JList [JObj [(''affiliations'',
                JList [JObj [(''name'', JStr ''C'')], JObj [(''name'', JStr ''C'')]])]])])]"
  have wf: "wf_json ?rep" by simp
  have a: "no_back_chain [] (applied_aff_pairs ?rep)"
    by (simp add: applied_aff_pairs_def aff_pairs_def report_list_def valid_pairs_def
        iter_items_def get_or_empty_def top_field_def)
  have b: "no_back_chain [] (org_pairs (report_list ?rep ''organizational_author_corrections''))"
    by (simp add: org_pairs_def report_list_def valid_pairs_def iter_items_def
        get_or_empty_def top_field_def)
  have n: "str_of_nat 3 = ''3''" by (simp add: str_of_nat.simps digit_char_def)
  have ap: "apply_affiliations
      (JObj [(''metadata'', JObj [(''title'', JStr ''T''), (''creators'',
              JList [JObj [(''affiliations'',
                JList [JObj [(''name'', JStr ''A'')], JObj [(''name'', JStr ''B'')]])]])])])
      (JList [JObj [(''old_affiliation'', JStr ''A''),
                    (''recommended_affiliation'', JStr ''B'')],
              JObj [(''old_affiliation'', JStr ''B''),
                    (''recommended_affiliation'', JStr ''C'')]])
      = Some (?r1, 3)"
    by (simp add: apply_affiliations_def)
  have run: "apply_corrections ?r ?rep
      = Some (?r1, True, [''Title corrected'', ''Affiliations corrected (3)''], [])"
    by (simp add: apply_corrections_def title_step_def abstract_step_def date_step_def
        descriptor_step_def affiliation_step_def org_step_def related_step_def
        apply_title_def ap n)
  from apply_corrections_idempotent[OF run wf a b] wf a b run show ?thesis by blast
qed

text \<open>
  C1 as stated fails on corrections that chain. With the affiliation "A" and the
  corrections B to C, then A to B, the first run rewrites "A" to "B"; the second run, on
  the corrected record with the same report, rewrites "B" to "C" and reports a change.
\<close>

theorem chained_affiliations_counterexample:
  "apply_corrections
     (JObj [(''metadata'', JObj [(''creators'',
              JList [JObj [(''affiliations'', JList [JObj [(''name'', JStr ''A'')]])]])])])
     (JObj [(''affiliation_corrections'',
            JList [JObj [(''old_affiliation'', JStr ''B''),
                         (''recommended_affiliation'', JStr ''C'')],
                   JObj [(''old_affiliation'', JStr ''A''),
                         (''recommended_affiliation'', JStr ''B'')]])])
   = Some (JObj [(''metadata'', JObj [(''creators'',
              JList [JObj [(''affiliations'', JList [JObj [(''name'', JStr ''B'')]])]])])],
           True, [''Affiliations corrected (1)''], []) \<and>
   apply_corrections
     (JObj [(''metadata'', JObj [(''creators'',
              JList [JObj [(''affiliations'', JList [JObj [(''name'', JStr ''B'')]])]])])])
     (JObj [(''affiliation_corrections'',
            JList [JObj [(''old_affiliation'', JStr ''B''),
                         (''recommended_affiliation'', JStr ''C'')],
                   JObj [(''old_affiliation'', JStr ''A''),
                         (''recommended_affiliation'', JStr ''B'')]])])
   = Some (JObj [(''metadata'', JObj [(''creators'',
              JList [JObj [(''affiliations'', JList [JObj [(''name'', JStr ''C'')]])]])])],
           True, [''Affiliations corrected (1)''], [])"
proof -
  have n: "str_of_nat (Suc 0) = ''1''" by (simp add: str_of_nat.simps digit_char_def)
  show ?thesis
    by (simp add: apply_corrections_def title_step_def abstract_step_def date_step_def
        descriptor_step_def affiliation_step_def org_step_def related_step_def
        apply_affiliations_def n)
qed

section \<open>Moving files into a quarantine directory\<close>









section \<open>Disposition: out-of-scope before duplicate\<close>









section \<open>The probe for a free name finds one\<close>














section \<open>The loop body: decision and filesystem effect\<close>




section \<open>A dry run and a live run, key by key\<close>



lemma save_json_dry [simp]: "save_json fs name data True = fs"
  by (simp add: save_json_def)

lemma save_json_dry_if [simp]: "(if c then save_json fs name data True else fs) = fs"
  by (cases c) simp_all





section \<open>A dry run and a live run of the batch\<close>


lemma append_json_inj: "(a @ ''.json'' = b @ ''.json'') = (a = b)"
  by simp





section \<open>Dry runs\<close>




section \<open>Arrays keep their length and order, applier by applier\<close>

lemma metadata_write_keeps:
  assumes "writes (Meta k) r r'"
  shows "same_descriptors r r'" and "k \<noteq> ''related_identifiers'' \<Longrightarrow> same_related r r'"
  using writes_meta_frame(2,3)[OF assms] by (simp_all add: same_descriptors_def same_related_def)

lemma same_descriptors_entries:
  "same_descriptors r r' \<Longrightarrow> descriptor_entries r' = descriptor_entries r"
  by (simp add: same_descriptors_def descriptor_entries_def descriptor_field_def)

lemma same_related_of: "same_related r r' \<Longrightarrow> related_of r' = related_of r"
  by (simp add: same_related_def related_of_def)

lemma scalar_keeps:
  assumes "overwrite k r c = Some (r', b)"
    and "k \<in> {''title'', ''description'', ''publication_date''}"
  shows "skeleton r' = skeleton r \<and> same_descriptors r r' \<and> same_related r r'"
proof -
  from assms(2) have w: "k \<in> set written_fields" and nk: "k \<noteq> ''related_identifiers''"
    by (auto simp: written_fields_def)
  from overwrite_skeleton[OF assms(1) w] metadata_write_keeps[OF overwrite_writes[OF assms(1)]] nk
  show ?thesis by simp
qed

lemma arrays_core:
  "(apply_title r c = Some (r', b) \<longrightarrow>
      skeleton r' = skeleton r \<and> same_descriptors r r' \<and> same_related r r') \<and>
   (apply_abstract r c = Some (r', b) \<longrightarrow>
      skeleton r' = skeleton r \<and> same_descriptors r r' \<and> same_related r r') \<and>
   (apply_publication_date r c = Some (r', b) \<longrightarrow>
      skeleton r' = skeleton r \<and> same_descriptors r r' \<and> same_related r r') \<and>
   (apply_affiliations r c = Some (r', n) \<longrightarrow>
      skeleton r' = skeleton r \<and> same_descriptors r r' \<and> same_related r r') \<and>
   (apply_org_authors r c = Some (r', n) \<longrightarrow>
      skeleton r' = skeleton r \<and> same_descriptors r r' \<and> same_related r r') \<and>
   (apply_descriptor_deletions r c = Some (r', b) \<longrightarrow>
      skeleton r' = skeleton r \<and> same_related r r' \<and>
      subseq (descriptor_entries r') (descriptor_entries r)) \<and>
   (add_related_identifiers r c = Some (r', n) \<longrightarrow>
      skeleton r' = skeleton r \<and> same_descriptors r r' \<and>
      prefix (related_of r) (related_of r')) \<and>
   (apply_corrections r c = Some (r', chg, acts, un) \<longrightarrow> evolves r r') \<and>
   (same_descriptors r r' \<longrightarrow> descriptor_entries r' = descriptor_entries r) \<and>
   (same_related r r' \<longrightarrow> related_of r' = related_of r) \<and>
   (skeleton r' = skeleton r \<longrightarrow>
      length (creators_of r') = length (creators_of r) \<and>
      (\<forall>i<length (creators_of r).
         creator_skel (creators_of r' ! i) = creator_skel (creators_of r ! i) \<and>
         length (affiliations_of (creators_of r' ! i))
           = length (affiliations_of (creators_of r ! i)) \<and>
         (\<forall>j<length (affiliations_of (creators_of r ! i)).
            name_skel (affiliations_of (creators_of r' ! i) ! j)
              = name_skel (affiliations_of (creators_of r ! i) ! j))))"
proof -
  have last: "skeleton r' = skeleton r \<longrightarrow>
      length (creators_of r') = length (creators_of r) \<and>
      (\<forall>i<length (creators_of r).
         creator_skel (creators_of r' ! i) = creator_skel (creators_of r ! i) \<and>
         length (affiliations_of (creators_of r' ! i))
           = length (affiliations_of (creators_of r ! i)) \<and>
         (\<forall>j<length (affiliations_of (creators_of r ! i)).
            name_skel (affiliations_of (creators_of r' ! i) ! j)
              = name_skel (affiliations_of (creators_of r ! i) ! j)))"
  proof
    assume sk: "skeleton r' = skeleton r"
    from skeleton_creators[OF sk] creator_skel_affiliations
    show "length (creators_of r') = length (creators_of r) \<and>
      (\<forall>i<length (creators_of r).
         creator_skel (creators_of r' ! i) = creator_skel (creators_of r ! i) \<and>
         length (affiliations_of (creators_of r' ! i))
           = length (affiliations_of (creators_of r ! i)) \<and>
         (\<forall>j<length (affiliations_of (creators_of r ! i)).
            name_skel (affiliations_of (creators_of r' ! i) ! j)
              = name_skel (affiliations_of (creators_of r ! i) ! j)))"
      by blast
  qed
  have scalars:
    "apply_title r c = Some (r', b) \<longrightarrow>
      skeleton r' = skeleton r \<and> same_descriptors r r' \<and> same_related r r'"
    "apply_abstract r c = Some (r', b) \<longrightarrow>
      skeleton r' = skeleton r \<and> same_descriptors r r' \<and> same_related r r'"
    "apply_publication_date r c = Some (r', b) \<longrightarrow>
      skeleton r' = skeleton r \<and> same_descriptors r r' \<and> same_related r r'"
    unfolding appliers_overwrite by (auto dest: scalar_keeps)
  have aff: "apply_affiliations r c = Some (r', n) \<longrightarrow>
      skeleton r' = skeleton r \<and> same_descriptors r r' \<and> same_related r r'"
    using affiliations_skeleton[of r c r' n]
      metadata_write_keeps[OF affiliations_writes[of r c r' n]] by simp
  have org: "apply_org_authors r c = Some (r', n) \<longrightarrow>
      skeleton r' = skeleton r \<and> same_descriptors r r' \<and> same_related r r'"
    using org_authors_skeleton[of r c r' n]
      metadata_write_keeps[OF org_authors_writes[of r c r' n]] by simp
  have des: "apply_descriptor_deletions r c = Some (r', b) \<longrightarrow>
      skeleton r' = skeleton r \<and> same_related r r' \<and>
      subseq (descriptor_entries r') (descriptor_entries r)"
    using descriptor_skeleton[of r c r' b] descriptor_evolves[of r c r' b]
      writes_descriptors_frame(3)[OF descriptor_writes[of r c r' b]]
    by (simp add: same_related_def evolves_def)
  have rel: "add_related_identifiers r c = Some (r', n) \<longrightarrow>
      skeleton r' = skeleton r \<and> same_descriptors r r' \<and>
      prefix (related_of r) (related_of r')"
    using related_skeleton[of r c r' n] related_evolves[of r c r' n]
      metadata_write_keeps(1)[OF related_writes[of r c r' n]]
    by (simp add: evolves_def)
  have all: "apply_corrections r c = Some (r', chg, acts, un) \<longrightarrow> evolves r r'"
    using apply_corrections_evolves[of r c r' chg acts un] by simp
  have sd: "same_descriptors r r' \<longrightarrow> descriptor_entries r' = descriptor_entries r"
    by (simp add: same_descriptors_entries)
  have sr: "same_related r r' \<longrightarrow> related_of r' = related_of r"
    by (simp add: same_related_of)
  show ?thesis
    by (intro conjI scalars aff org des rel all sd sr last)
qed

text \<open>
  C8. Whenever it returns, each of the title, abstract, publication-date, affiliation and
  organizational-author appliers leaves the skeleton of the record (every field but the
  scalar slots, the names, the descriptor field and the related identifiers, with every
  list in place), its \<open>custom_fields\<close> and its \<open>related_identifiers\<close> as they were.
  Descriptor deletion leaves the skeleton and \<open>related_identifiers\<close> as they were and
  the descriptor collection a subsequence of the old one. Related-identifier addition
  leaves the skeleton and \<open>custom_fields\<close> as they were and extends the related
  identifiers at the end. The orchestrator composes them. With the same skeleton the
  creators array has its length, creator by creator the order is kept (the skeleton of
  each creator is the same), and each creator's affiliations array has its length and
  order.
\<close>

theorem arrays_preserved:
  "(apply_title r c = Some (r', b) \<longrightarrow>
      skeleton r' = skeleton r \<and> same_descriptors r r' \<and> same_related r r') \<and>
   (apply_abstract r c = Some (r', b) \<longrightarrow>
      skeleton r' = skeleton r \<and> same_descriptors r r' \<and> same_related r r') \<and>
   (apply_publication_date r c = Some (r', b) \<longrightarrow>
      skeleton r' = skeleton r \<and> same_descriptors r r' \<and> same_related r r') \<and>
   (apply_affiliations r c = Some (r', n) \<longrightarrow>
      skeleton r' = skeleton r \<and> same_descriptors r r' \<and> same_related r r') \<and>
   (apply_org_authors r c = Some (r', n) \<longrightarrow>
      skeleton r' = skeleton r \<and> same_descriptors r r' \<and> same_related r r') \<and>
   (apply_descriptor_deletions r c = Some (r', b) \<longrightarrow>
      skeleton r' = skeleton r \<and> same_related r r' \<and>
      subseq (descriptor_entries r') (descriptor_entries r)) \<and>
   (add_related_identifiers r c = Some (r', n) \<longrightarrow>
      skeleton r' = skeleton r \<and> same_descriptors r r' \<and>
      prefix (related_of r) (related_of r')) \<and>
   (apply_corrections r c = Some (r', chg, acts, un) \<longrightarrow> evolves r r') \<and>
   (same_descriptors r r' \<longrightarrow> descriptor_entries r' = descriptor_entries r) \<and>
   (same_related r r' \<longrightarrow> related_of r' = related_of r) \<and>
   (skeleton r' = skeleton r \<longrightarrow>
      length (creators_of r') = length (creators_of r) \<and>
      (\<forall>i<length (creators_of r).
         creator_skel (creators_of r' ! i) = creator_skel (creators_of r ! i) \<and>
         length (affiliations_of (creators_of r' ! i))
           = length (affiliations_of (creators_of r ! i)) \<and>
         (\<forall>j<length (affiliations_of (creators_of r ! i)).
            name_skel (affiliations_of (creators_of r' ! i) ! j)
              = name_skel (affiliations_of (creators_of r ! i) ! j))))"
  by (rule arrays_core)

theorem arrays_preserved_witness:
  "apply_affiliations
     (JObj [(''metadata'', JObj [(''creators'',
        JList [JObj [(''person_or_org'', JObj [(''name'', JStr ''X'')]),
                     (''affiliations'', JList [JObj [(''name'', JStr ''A'')], JObj [(''name'', JStr ''B'')]])],
               JObj [(''affiliations'', JList [JObj [(''name'', JStr ''B'')], JObj [(''name'', JStr ''A'')], JObj [(''name'', JStr ''C'')]])]]),
       (''related_identifiers'', JList [JObj [(''identifier'', JStr ''i1'')], JObj [(''identifier'', JStr ''i2'')]])]),
     (''custom_fields'', JObj [(''iaea:descriptors_cai_text'', JList [JStr ''d1'', JStr ''d2'', JStr ''d3''])])])
     (JList [JObj [(''old_affiliation'', JStr ''A''), (''recommended_affiliation'', JStr ''Z'')]])
   = Some (JObj [(''metadata'', JObj [(''creators'',
        JList [JObj [(''person_or_org'', JObj [(''name'', JStr ''X'')]),
                     (''affiliations'', JList [JObj [(''name'', JStr ''Z'')], JObj [(''name'', JStr ''B'')]])],
               JObj [(''affiliations'', JList [JObj [(''name'', JStr ''B'')], JObj [(''name'', JStr ''Z'')], JObj [(''name'', JStr ''C'')]])]]),
       (''related_identifiers'', JList [JObj [(''identifier'', JStr ''i1'')], JObj [(''identifier'', JStr ''i2'')]])]),
     (''custom_fields'', JObj [(''iaea:descriptors_cai_text'', JList [JStr ''d1'', JStr ''d2'', JStr ''d3''])])], 2) \<and>
   skeleton (JObj [(''metadata'', JObj [(''creators'',
        JList [JObj [(''person_or_org'', JObj [(''name'', JStr ''X'')]),
                     (''affiliations'', JList [JObj [(''name'', JStr ''Z'')], JObj [(''name'', JStr ''B'')]])],
               JObj [(''affiliations'', JList [JObj [(''name'', JStr ''B'')], JObj [(''name'', JStr ''Z'')], JObj [(''name'', JStr ''C'')]])]]),
       (''related_identifiers'', JList [JObj [(''identifier'', JStr ''i1'')], JObj [(''identifier'', JStr ''i2'')]])]),
     (''custom_fields'', JObj [(''iaea:descriptors_cai_text'', JList [JStr ''d1'', JStr ''d2'', JStr ''d3''])])])
   = skeleton (JObj [(''metadata'', JObj [(''creators'',
        JList [JObj [(''person_or_org'', JObj [(''name'', JStr ''X'')]),
                     (''affiliations'', JList [JObj [(''name'', JStr ''A'')], JObj [(''name'', JStr ''B'')]])],
               JObj [(''affiliations'', JList [JObj [(''name'', JStr ''B'')], JObj [(''name'', JStr ''A'')], JObj [(''name'', JStr ''C'')]])]]),
       (''related_identifiers'', JList [JObj [(''identifier'', JStr ''i1'')], JObj [(''identifier'', JStr ''i2'')]])]),
     (''custom_fields'', JObj [(''iaea:descriptors_cai_text'', JList [JStr ''d1'', JStr ''d2'', JStr ''d3''])])]) \<and>
   descriptor_entries (JObj [(''metadata'', JObj [(''creators'',
        JList [JObj [(''person_or_org'', JObj [(''name'', JStr ''X'')]),
                     (''affiliations'', JList [JObj [(''name'', JStr ''Z'')], JObj [(''name'', JStr ''B'')]])],
               JObj [(''affiliations'', JList [JObj [(''name'', JStr ''B'')], JObj [(''name'', JStr ''Z'')], JObj [(''name'', JStr ''C'')]])]]),
       (''related_identifiers'', JList [JObj [(''identifier'', JStr ''i1'')], JObj [(''identifier'', JStr ''i2'')]])]),
     (''custom_fields'', JObj [(''iaea:descriptors_cai_text'', JList [JStr ''d1'', JStr ''d2'', JStr ''d3''])])])
   = [JStr ''d1'', JStr ''d2'', JStr ''d3''] \<and>
   related_of (JObj [(''metadata'', JObj [(''creators'',
        JList [JObj [(''person_or_org'', JObj [(''name'', JStr ''X'')]),
                     (''affiliations'', JList [JObj [(''name'', JStr ''Z'')], JObj [(''name'', JStr ''B'')]])],
               JObj [(''affiliations'', JList [JObj [(''name'', JStr ''B'')], JObj [(''name'', JStr ''Z'')], JObj [(''name'', JStr ''C'')]])]]),
       (''related_identifiers'', JList [JObj [(''identifier'', JStr ''i1'')], JObj [(''identifier'', JStr ''i2'')]])]),
     (''custom_fields'', JObj [(''iaea:descriptors_cai_text'', JList [JStr ''d1'', JStr ''d2'', JStr ''d3''])])])
   = [JObj [(''identifier'', JStr ''i1'')], JObj [(''identifier'', JStr ''i2'')]] \<and>
   map (\<lambda>c. length (affiliations_of c)) (creators_of (JObj [(''metadata'', JObj [(''creators'',
        JList [JObj [(''person_or_org'', JObj [(''name'', JStr ''X'')]),
                     (''affiliations'', JList [JObj [(''name'', JStr ''Z'')], JObj [(''name'', JStr ''B'')]])],
               JObj [(''affiliations'', JList [JObj [(''name'', JStr ''B'')], JObj [(''name'', JStr ''Z'')], JObj [(''name'', JStr ''C'')]])]]),
       (''related_identifiers'', JList [JObj [(''identifier'', JStr ''i1'')], JObj [(''identifier'', JStr ''i2'')]])]),
     (''custom_fields'', JObj [(''iaea:descriptors_cai_text'', JList [JStr ''d1'', JStr ''d2'', JStr ''d3''])])]))
   = [2, 3] \<and>
   apply_descriptor_deletions
     (JObj [(''metadata'', JObj [(''creators'',
        JList [JObj [(''person_or_org'', JObj [(''name'', JStr ''X'')]),
                     (''affiliations'', JList [JObj [(''name'', JStr ''A'')], JObj [(''name'', JStr ''B'')]])],
               JObj [(''affiliations'', JList [JObj [(''name'', JStr ''B'')], JObj [(''name'', JStr ''A'')], JObj [(''name'', JStr ''C'')]])]]),
       (''related_identifiers'', JList [JObj [(''identifier'', JStr ''i1'')], JObj [(''identifier'', JStr ''i2'')]])]),
     (''custom_fields'', JObj [(''iaea:descriptors_cai_text'', JList [JStr ''d1'', JStr ''d2'', JStr ''d3''])])])
     (JList [JStr ''D2''])
   = Some (JObj [(''metadata'', JObj [(''creators'',
        JList [JObj [(''person_or_org'', JObj [(''name'', JStr ''X'')]),
                     (''affiliations'', JList [JObj [(''name'', JStr ''A'')], JObj [(''name'', JStr ''B'')]])],
               JObj [(''affiliations'', JList [JObj [(''name'', JStr ''B'')], JObj [(''name'', JStr ''A'')], JObj [(''name'', JStr ''C'')]])]]),
       (''related_identifiers'', JList [JObj [(''identifier'', JStr ''i1'')], JObj [(''identifier'', JStr ''i2'')]])]),
     (''custom_fields'', JObj [(''iaea:descriptors_cai_text'', JList [JStr ''d1'', JStr ''d3''])])], True) \<and>
   subseq (descriptor_entries (JObj [(''metadata'', JObj [(''creators'',
        JList [JObj [(''person_or_org'', JObj [(''name'', JStr ''X'')]),
                     (''affiliations'', JList [JObj [(''name'', JStr ''A'')], JObj [(''name'', JStr ''B'')]])],
               JObj [(''affiliations'', JList [JObj [(''name'', JStr ''B'')], JObj [(''name'', JStr ''A'')], JObj [(''name'', JStr ''C'')]])]]),
       (''related_identifiers'', JList [JObj [(''identifier'', JStr ''i1'')], JObj [(''identifier'', JStr ''i2'')]])]),
     (''custom_fields'', JObj [(''iaea:descriptors_cai_text'', JList [JStr ''d1'', JStr ''d3''])])]))
     [JStr ''d1'', JStr ''d2'', JStr ''d3''] \<and>
   related_of (JObj [(''metadata'', JObj [(''creators'',
        JList [JObj [(''person_or_org'', JObj [(''name'', JStr ''X'')]),
                     (''affiliations'', JList [JObj [(''name'', JStr ''A'')], JObj [(''name'', JStr ''B'')]])],
               JObj [(''affiliations'', JList [JObj [(''name'', JStr ''B'')], JObj [(''name'', JStr ''A'')], JObj [(''name'', JStr ''C'')]])]]),
       (''related_identifiers'', JList [JObj [(''identifier'', JStr ''i1'')], JObj [(''identifier'', JStr ''i2'')]])]),
     (''custom_fields'', JObj [(''iaea:descriptors_cai_text'', JList [JStr ''d1'', JStr ''d3''])])])
   = [JObj [(''identifier'', JStr ''i1'')], JObj [(''identifier'', JStr ''i2'')]] \<and>
   add_related_identifiers
     (JObj [(''metadata'', JObj [(''creators'',
        JList [JObj [(''person_or_org'', JObj [(''name'', JStr ''X'')]),
                     (''affiliations'', JList [JObj [(''name'', JStr ''A'')], JObj [(''name'', JStr ''B'')]])],
               JObj [(''affiliations'', JList [JObj [(''name'', JStr ''B'')], JObj [(''name'', JStr ''A'')], JObj [(''name'', JStr ''C'')]])]]),
       (''related_identifiers'', JList [JObj [(''identifier'', JStr ''i1'')], JObj [(''identifier'', JStr ''i2'')]])]),
     (''custom_fields'', JObj [(''iaea:descriptors_cai_text'', JList [JStr ''d1'', JStr ''d2'', JStr ''d3''])])])
     (JList [JObj [(''identifier'', JStr ''i3'')], JObj [(''identifier'', JStr ''i1'')]])
   = Some (JObj [(''metadata'', JObj [(''creators'',
        JList [JObj [(''person_or_org'', JObj [(''name'', JStr ''X'')]),
                     (''affiliations'', JList [JObj [(''name'', JStr ''A'')], JObj [(''name'', JStr ''B'')]])],
               JObj [(''affiliations'', JList [JObj [(''name'', JStr ''B'')], JObj [(''name'', JStr ''A'')], JObj [(''name'', JStr ''C'')]])]]),
       (''related_identifiers'', JList [JObj [(''identifier'', JStr ''i1'')], JObj [(''identifier'', JStr ''i2'')], JObj [(''identifier'', JStr ''i3'')]])]),
     (''custom_fields'', JObj [(''iaea:descriptors_cai_text'', JList [JStr ''d1'', JStr ''d2'', JStr ''d3''])])], 1) \<and>
   prefix [JObj [(''identifier'', JStr ''i1'')], JObj [(''identifier'', JStr ''i2'')]]
     (related_of (JObj [(''metadata'', JObj [(''creators'',
        JList [JObj [(''person_or_org'', JObj [(''name'', JStr ''X'')]),
                     (''affiliations'', JList [JObj [(''name'', JStr ''A'')], JObj [(''name'', JStr ''B'')]])],
               JObj [(''affiliations'', JList [JObj [(''name'', JStr ''B'')], JObj [(''name'', JStr ''A'')], JObj [(''name'', JStr ''C'')]])]]),
       (''related_identifiers'', JList [JObj [(''identifier'', JStr ''i1'')], JObj [(''identifier'', JStr ''i2'')], JObj [(''identifier'', JStr ''i3'')]])]),
     (''custom_fields'', JObj [(''iaea:descriptors_cai_text'', JList [JStr ''d1'', JStr ''d2'', JStr ''d3''])])])) \<and>
   descriptor_entries (JObj [(''metadata'', JObj [(''creators'',
        JList [JObj [(''person_or_org'', JObj [(''name'', JStr ''X'')]),
                     (''affiliations'', JList [JObj [(''name'', JStr ''A'')], JObj [(''name'', JStr ''B'')]])],
               JObj [(''affiliations'', JList [JObj [(''name'', JStr ''B'')], JObj [(''name'', JStr ''A'')], JObj [(''name'', JStr ''C'')]])]]),
       (''related_identifiers'', JList [JObj [(''identifier'', JStr ''i1'')], JObj [(''identifier'', JStr ''i2'')], JObj [(''identifier'', JStr ''i3'')]])]),
     (''custom_fields'', JObj [(''iaea:descriptors_cai_text'', JList [JStr ''d1'', JStr ''d2'', JStr ''d3''])])])
   = [JStr ''d1'', JStr ''d2'', JStr ''d3'']"
proof -
  let ?r = "JObj [(''metadata'', JObj [(''creators'',
        JList [JObj [(''person_or_org'', JObj [(''name'', JStr ''X'')]),
                     (''affiliations'', JList [JObj [(''name'', JStr ''A'')], JObj [(''name'', JStr ''B'')]])],
               JObj [(''affiliations'', JList [JObj [(''name'', JStr ''B'')], JObj [(''name'', JStr ''A'')], JObj [(''name'', JStr ''C'')]])]]),
       (''related_identifiers'', JList [JObj [(''identifier'', JStr ''i1'')], JObj [(''identifier'', JStr ''i2'')]])]),
     (''custom_fields'', JObj [(''iaea:descriptors_cai_text'', JList [JStr ''d1'', JStr ''d2'', JStr ''d3''])])]"
  let ?r1 = "JObj [(''metadata'', JObj [(''creators'',
        JList [JObj [(''person_or_org'', JObj [(''name'', JStr ''X'')]),
                     (''affiliations'', JList [JObj [(''name'', JStr ''Z'')], JObj [(''name'', JStr ''B'')]])],
               JObj [(''affiliations'', JList [JObj [(''name'', JStr ''B'')], JObj [(''name'', JStr ''Z'')], JObj [(''name'', JStr ''C'')]])]]),
       (''related_identifiers'', JList [JObj [(''identifier'', JStr ''i1'')], JObj [(''identifier'', JStr ''i2'')]])]),
     (''custom_fields'', JObj [(''iaea:descriptors_cai_text'', JList [JStr ''d1'', JStr ''d2'', JStr ''d3''])])]"
  let ?r2 = "JObj [(''metadata'', JObj [(''creators'',
        JList [JObj [(''person_or_org'', JObj [(''name'', JStr ''X'')]),
                     (''affiliations'', JList [JObj [(''name'', JStr ''A'')], JObj [(''name'', JStr ''B'')]])],
               JObj [(''affiliations'', JList [JObj [(''name'', JStr ''B'')], JObj [(''name'', JStr ''A'')], JObj [(''name'', JStr ''C'')]])]]),
       (''related_identifiers'', JList [JObj [(''identifier'', JStr ''i1'')], JObj [(''identifier'', JStr ''i2'')]])]),
     (''custom_fields'', JObj [(''iaea:descriptors_cai_text'', JList [JStr ''d1'', JStr ''d3''])])]"
  let ?r3 = "JObj [(''metadata'', JObj [(''creators'',
        JList [JObj [(''person_or_org'', JObj [(''name'', JStr ''X'')]),
                     (''affiliations'', JList [JObj [(''name'', JStr ''A'')], JObj [(''name'', JStr ''B'')]])],
               JObj [(''affiliations'', JList [JObj [(''name'', JStr ''B'')], JObj [(''name'', JStr ''A'')], JObj [(''name'', JStr ''C'')]])]]),
       (''related_identifiers'', JList [JObj [(''identifier'', JStr ''i1'')], JObj [(''identifier'', JStr ''i2'')], JObj [(''identifier'', JStr ''i3'')]])]),
     (''custom_fields'', JObj [(''iaea:descriptors_cai_text'', JList [JStr ''d1'', JStr ''d2'', JStr ''d3''])])]"
  let ?a = "JList [JObj [(''old_affiliation'', JStr ''A''), (''recommended_affiliation'', JStr ''Z'')]]"
  let ?d = "JList [JStr ''D2'']"
  let ?i = "JList [JObj [(''identifier'', JStr ''i3'')], JObj [(''identifier'', JStr ''i1'')]]"
  have de: "descriptor_entries ?r = [JStr ''d1'', JStr ''d2'', JStr ''d3'']"
    by (simp add: descriptor_entries_def descriptor_field_def top_field_def descriptors_key_def)
  have re: "related_of ?r
      = [JObj [(''identifier'', JStr ''i1'')], JObj [(''identifier'', JStr ''i2'')]]"
    by (simp add: related_of_def metadata_field_def top_field_def)
  have cr: "map (\<lambda>c. length (affiliations_of c)) (creators_of ?r) = [2, 3]"
    by (simp add: creators_of_def affiliations_of_def metadata_field_def top_field_def)
  have run1: "apply_affiliations ?r ?a = Some (?r1, 2)"
    by (simp add: apply_affiliations_def)
  have run2: "apply_descriptor_deletions ?r ?d = Some (?r2, True)"
    by (simp add: apply_descriptor_deletions_def delete_descriptors_def descriptors_key_def
        py_lower_def lower_char_def capitals_def smalls_def Let_def)
  have run3: "add_related_identifiers ?r ?i = Some (?r3, 1)"
    by (simp add: add_related_identifiers_def existing_id_def identifier_of_def set_member_def)
  note t1 = arrays_preserved[of ?r ?a ?r1 True 2 True "[]" "[]"]
  note t2 = arrays_preserved[of ?r ?d ?r2 True 0 True "[]" "[]"]
  note t3 = arrays_preserved[of ?r ?i ?r3 True 1 True "[]" "[]"]
  from t1 run1 have k1: "skeleton ?r1 = skeleton ?r" "same_descriptors ?r ?r1"
    "same_related ?r ?r1" by blast+
  from t1 k1 have e1: "descriptor_entries ?r1 = descriptor_entries ?r"
    "related_of ?r1 = related_of ?r"
    "length (creators_of ?r1) = length (creators_of ?r)"
    "\<forall>i<length (creators_of ?r). length (affiliations_of (creators_of ?r1 ! i))
           = length (affiliations_of (creators_of ?r ! i))"
    by blast+
  from e1(3,4) have "map (\<lambda>c. length (affiliations_of c)) (creators_of ?r1)
      = map (\<lambda>c. length (affiliations_of c)) (creators_of ?r)"
    by (auto intro: nth_equalityI)
  with cr have c1: "map (\<lambda>c. length (affiliations_of c)) (creators_of ?r1) = [2, 3]" by simp
  from t2 run2 have k2: "same_related ?r ?r2"
    "subseq (descriptor_entries ?r2) (descriptor_entries ?r)" by blast+
  from t2 k2(1) have e2: "related_of ?r2 = related_of ?r" by blast
  from t3 run3 have k3: "same_descriptors ?r ?r3" "prefix (related_of ?r) (related_of ?r3)"
    by blast+
  from t3 k3(1) have e3: "descriptor_entries ?r3 = descriptor_entries ?r" by blast
  from run1 k1(1) e1(1,2) c1 run2 k2(2) e2 run3 k3(2) e3 show ?thesis
    unfolding de re by (intro conjI)
qed

end
